theory Spec2Isabelle
  imports Main "HOL-Library.Word"
begin

unbundle bit_operations_syntax

section \<open>The NVS partition generator of the web flasher\<close>

text \<open>
  A shallow embedding of the class \<open>NVSGenerator\<close> (the NVS partition generator module):
  \<open>calculateCRC32\<close>, \<open>createEntry\<close>, \<open>writeEntry\<close>, \<open>finalizePage\<close>, \<open>generate\<close> and
  \<open>parse\<close>.

  \<^item> A \<open>Uint8Array\<close> is a list of 8-bit words. An indexed store \<open>binary[i] = v\<close> is
    \<open>binary[i := v]\<close>: JavaScript ignores the store when \<open>i\<close> is out of range, and so does
    list update. \<open>TypedArray.set\<close> and the \<open>DataView\<close> setters raise \<open>RangeError\<close> when
    the bytes do not fit, which is the error value \<open>RangeError\<close> here.
  \<^item> A JavaScript object used as an ordered mapping is an association list in the order
    in which \<open>Object.keys\<close> and \<open>Object.entries\<close> enumerate it. Property names are
    unique in an object; theorems that need this assume \<open>distinct\<close> keys. The object
    \<open>namespaceMap\<close> of \<open>generate\<close> is a map, with the one property name that an
    assignment to a plain object does not store, \<open>__proto__\<close>, treated apart.
  \<^item> A string is a list of 8-bit characters, one character for one UTF-16 code unit: the
    JavaScript strings whose code units are all below 256 (ASCII and Latin-1).
    \<open>TextEncoder.encode\<close> gives their UTF-8 bytes, one byte for a character below 128 and
    two bytes for any other, and \<open>substring(0, 15)\<close> keeps the first 15 characters.
    \<open>TextDecoder.decode\<close> is embedded on ASCII bytes, where it maps bytes and
    characters one to one; the theorems on \<open>parse\<close> assume ASCII text.
  \<^item> An integral JavaScript number is an \<open>int\<close>; a number that is not integral is \<open>JFloat\<close>.
  \<^item> An exception is the left summand of \<open>error + 'a\<close>.
\<close>

type_synonym byte = "8 word"
type_synonym buffer = "byte list"

datatype error =
    RangeError              \<comment> \<open>raised by \<open>TypedArray.set\<close> and by the \<open>DataView\<close> accessors\<close>
  | FloatNotSupported       \<comment> \<open>\<open>'Float values not supported yet'\<close>\<close>
  | UnsupportedValueType    \<comment> \<open>\<open>'Unsupported value type for key ...'\<close>\<close>
  | PartitionTooSmall       \<comment> \<open>\<open>'NVS partition size too small for data'\<close>\<close>

definition bindE :: "error + 'a \<Rightarrow> ('a \<Rightarrow> error + 'b) \<Rightarrow> error + 'b" where
  "bindE m f = (case m of Inl e \<Rightarrow> Inl e | Inr x \<Rightarrow> f x)"

datatype jsvalue =
    JString string
  | JNumber int
  | JFloat
  | JBytes "byte list"
  | JBoolean bool
  | JNull

abbreviation PAGE_SIZE :: nat where "PAGE_SIZE \<equiv> 4096"
abbreviation ENTRY_SIZE :: nat where "ENTRY_SIZE \<equiv> 32"
abbreviation ENTRIES_PER_PAGE :: nat where "ENTRIES_PER_PAGE \<equiv> 126"

abbreviation TYPE_U8 :: byte where "TYPE_U8 \<equiv> 0x01"
abbreviation TYPE_I8 :: byte where "TYPE_I8 \<equiv> 0x11"
abbreviation TYPE_U16 :: byte where "TYPE_U16 \<equiv> 0x02"
abbreviation TYPE_I16 :: byte where "TYPE_I16 \<equiv> 0x12"
abbreviation TYPE_U32 :: byte where "TYPE_U32 \<equiv> 0x04"
abbreviation TYPE_I32 :: byte where "TYPE_I32 \<equiv> 0x14"
abbreviation TYPE_STR :: byte where "TYPE_STR \<equiv> 0x21"
abbreviation TYPE_BLOB :: byte where "TYPE_BLOB \<equiv> 0x41"

abbreviation PAGE_STATE_ACTIVE :: "32 word" where "PAGE_STATE_ACTIVE \<equiv> 0xFFFFFFFE"
abbreviation PAGE_STATE_FULL :: "32 word" where "PAGE_STATE_FULL \<equiv> 0xFFFFFFFC"
abbreviation PAGE_STATE_EMPTY :: "32 word" where "PAGE_STATE_EMPTY \<equiv> 0xFFFFFFFF"

subsection \<open>Typed arrays and data views\<close>

text \<open>The buffer with the bytes \<open>src\<close> stored from index \<open>off\<close> on.\<close>

definition overlay :: "buffer \<Rightarrow> nat \<Rightarrow> byte list \<Rightarrow> buffer" where
  "overlay binary off src = take off binary @ src @ drop (off + length src) binary"

text \<open>\<open>target.set(src, off)\<close>: copies \<open>src\<close> to \<open>off\<close>, or raises when it does not fit.\<close>

definition set_bytes :: "buffer \<Rightarrow> byte list \<Rightarrow> nat \<Rightarrow> error + buffer" where
  "set_bytes binary src off =
     (if off + length src > length binary then Inl RangeError
      else Inr (overlay binary off src))"

text \<open>\<open>a.slice(s, e)\<close>, clamped to the length of \<open>a\<close>.\<close>

definition slice :: "byte list \<Rightarrow> nat \<Rightarrow> nat \<Rightarrow> byte list" where
  "slice a s e = take (e - s) (drop s a)"

text \<open>Reading \<open>a[i]\<close> into a \<open>Uint8Array\<close> cell: \<open>undefined\<close> is stored as 0.\<close>

definition rd :: "byte list \<Rightarrow> nat \<Rightarrow> byte" where
  "rd a i = (if i < length a then a ! i else 0)"

text \<open>Copying \<open>src\<close> into a fresh zeroed window of \<open>n\<close> bytes that it does not exceed.\<close>

definition pad_zero :: "nat \<Rightarrow> byte list \<Rightarrow> byte list" where
  "pad_zero n src = src @ replicate (n - length src) 0"

definition uint16_le :: "16 word \<Rightarrow> byte list" where
  "uint16_le v = [ucast v, ucast (drop_bit 8 v)]"

definition uint32_le :: "32 word \<Rightarrow> byte list" where
  "uint32_le v = [ucast v, ucast (drop_bit 8 v), ucast (drop_bit 16 v), ucast (drop_bit 24 v)]"

text \<open>\<open>view.setUint16(off, v, true)\<close> and \<open>view.setUint32(off, v, true)\<close>.\<close>

definition setUint16 :: "buffer \<Rightarrow> nat \<Rightarrow> 16 word \<Rightarrow> error + buffer" where
  "setUint16 binary off v = set_bytes binary (uint16_le v) off"

definition setUint32 :: "buffer \<Rightarrow> nat \<Rightarrow> 32 word \<Rightarrow> error + buffer" where
  "setUint32 binary off v = set_bytes binary (uint32_le v) off"

text \<open>The number that a little-endian byte sequence stands for.\<close>

definition le_value :: "byte list \<Rightarrow> nat" where
  "le_value bs = foldr (\<lambda>b acc. unat b + 256 * acc) bs 0"

text \<open>
  \<open>new TextEncoder().encode(s)\<close>: the UTF-8 bytes of the code points below 256, two bytes
  \<open>110000xx 10xxxxxx\<close> from 128 on.
\<close>

definition utf8_char :: "char \<Rightarrow> byte list" where
  "utf8_char c =
     (if (of_char c :: nat) < 128 then [of_char c]
      else [0xC0 OR drop_bit 6 (of_char c), 0x80 OR (of_char c AND 0x3F)])"

definition TextEncoder_encode :: "string \<Rightarrow> byte list" where
  "TextEncoder_encode s = concat (map utf8_char s)"

subsection \<open>calculateCRC32\<close>

definition crc_shift :: "32 word \<Rightarrow> 32 word" where
  "crc_shift crc = drop_bit 1 crc XOR (0xEDB88320 AND - (crc AND 1))"

definition crc_byte :: "32 word \<Rightarrow> byte \<Rightarrow> 32 word" where
  "crc_byte crc d = (crc_shift ^^ 8) (crc XOR ucast d)"

definition calculateCRC32 :: "byte list \<Rightarrow> 32 word" where
  "calculateCRC32 dat = NOT (foldl crc_byte 0xFFFFFFFF dat)"

subsection \<open>createEntry\<close>

record entry =
  e_namespace :: nat
  e_type :: byte
  e_span :: nat
  e_key :: string
  e_data :: "byte list"

text \<open>\<open>Math.ceil(n / 32)\<close> on a length.\<close>

definition ceil32 :: "nat \<Rightarrow> nat" where
  "ceil32 n = (n + 31) div 32"

definition entry_payload :: "jsvalue \<Rightarrow> error + byte \<times> byte list" where
  "entry_payload v =
     (case v of
        JString s \<Rightarrow> Inr (TYPE_STR, TextEncoder_encode s @ [0])
      | JNumber n \<Rightarrow>
          if 0 \<le> n \<and> n \<le> 255 then Inr (TYPE_U8, [word_of_int n])
          else if 0 \<le> n \<and> n \<le> 65535 then Inr (TYPE_U16, uint16_le (word_of_int n))
          else Inr (TYPE_U32, uint32_le (word_of_int n))
      | JFloat \<Rightarrow> Inl FloatNotSupported
      | _ \<Rightarrow> Inl UnsupportedValueType)"

definition createEntry :: "nat \<Rightarrow> string \<Rightarrow> jsvalue \<Rightarrow> error + entry" where
  "createEntry namespaceIndex key v =
     bindE (entry_payload v) (\<lambda>(type, dat).
       let span = (if type = TYPE_STR \<or> type = TYPE_BLOB then 1 + ceil32 (length dat) else 1)
       in Inr \<lparr>e_namespace = namespaceIndex, e_type = type, e_span = span,
                e_key = key, e_data = dat\<rparr>)"

subsection \<open>writeEntry\<close>

definition entry_offset :: "nat \<Rightarrow> nat \<Rightarrow> nat" where
  "entry_offset pageIndex entryIndex = pageIndex * PAGE_SIZE + 32 + entryIndex * ENTRY_SIZE"

text \<open>The loop that copies the payload into the continuation slots \<open>i = 1, ..., span - 1\<close>.\<close>

function write_chunks :: "buffer \<Rightarrow> nat \<Rightarrow> byte list \<Rightarrow> nat \<Rightarrow> nat \<Rightarrow> nat \<Rightarrow> error + buffer" where
  "write_chunks binary offset dat dataOffset i span =
     (if i < span then
        bindE (set_bytes binary (slice dat dataOffset (dataOffset + ENTRY_SIZE)) (offset + i * ENTRY_SIZE))
          (\<lambda>binary'. write_chunks binary' offset dat (dataOffset + ENTRY_SIZE) (i + 1) span)
      else Inr binary)"
  by pat_completeness auto
termination
  by (relation "measure (\<lambda>(binary, offset, dat, dataOffset, i, span). span - i)") auto

declare write_chunks.simps [simp del]

text \<open>The 28 bytes the entry checksum is taken over, read back from the buffer.\<close>

definition crc_window :: "buffer \<Rightarrow> nat \<Rightarrow> byte list" where
  "crc_window binary offset =
     [rd binary offset, rd binary (offset + 1), rd binary (offset + 2), rd binary (offset + 3)]
     @ pad_zero 16 (slice binary (offset + 8) (offset + 24))
     @ pad_zero 8 (slice binary (offset + 24) (offset + 32))"

definition writeEntry :: "buffer \<Rightarrow> nat \<Rightarrow> nat \<Rightarrow> entry \<Rightarrow> error + buffer" where
  "writeEntry binary pageIndex entryIndex entry =
     (let offset = entry_offset pageIndex entryIndex;
          b1 = binary[offset := of_nat (e_namespace entry), offset + 1 := e_type entry,
                      offset + 2 := of_nat (e_span entry), offset + 3 := 0xFF];
          keyBytes = TextEncoder_encode (take 15 (e_key entry))
      in bindE (set_bytes b1 keyBytes (offset + 8)) (\<lambda>b2.
         let b3 = fold (\<lambda>i b. b[offset + 8 + i := 0]) [length keyBytes..<16] b2
         in bindE
              (if e_type entry = TYPE_STR \<or> e_type entry = TYPE_BLOB then
                 bindE (setUint16 b3 (offset + 24) (of_nat (length (e_data entry)))) (\<lambda>b4.
                   write_chunks b4 offset (e_data entry) 0 1 (e_span entry))
               else set_bytes b3 (e_data entry) (offset + 24))
              (\<lambda>b5. setUint32 b5 (offset + 4) (calculateCRC32 (crc_window b5 offset)))))"

subsection \<open>finalizePage\<close>

definition finalizePage :: "buffer \<Rightarrow> nat \<Rightarrow> nat \<Rightarrow> error + buffer" where
  "finalizePage binary pageIndex numEntries =
     (let offset = pageIndex * PAGE_SIZE
      in bindE (setUint32 binary offset PAGE_STATE_ACTIVE) (\<lambda>b1.
         bindE (setUint32 b1 (offset + 4) (of_nat pageIndex)) (\<lambda>b2.
         bindE (setUint32 b2 (offset + 8) 0xFFFFFFFF) (\<lambda>b3.
         setUint32 b3 (offset + 28) (calculateCRC32 (slice b3 offset (offset + 28)))))))"

subsection \<open>generate\<close>

type_synonym nvs_data = "(string \<times> (string \<times> jsvalue) list) list"

text \<open>
  The first loop: the namespaces with a non-empty value map are numbered 1, 2, ...
  \<open>namespaceMap\<close> is a plain object: the assignment \<open>namespaceMap[namespace] = n\<close> makes
  a property of it, except for the name \<open>__proto__\<close>, where the assignment goes to the
  setter that \<open>Object.prototype\<close> has for this name, which ignores a number.
\<close>

fun build_namespaceMap ::
  "nvs_data \<Rightarrow> nat \<Rightarrow> (string \<rightharpoonup> nat) \<Rightarrow> (string \<rightharpoonup> nat)" where
  "build_namespaceMap [] namespaceIndex namespaceMap = namespaceMap"
| "build_namespaceMap ((namespace, entries) # rest) namespaceIndex namespaceMap =
     (if length entries > 0
      then build_namespaceMap rest (namespaceIndex + 1)
             (if namespace = ''__proto__'' then namespaceMap
              else namespaceMap(namespace \<mapsto> namespaceIndex + 1))
      else build_namespaceMap rest namespaceIndex namespaceMap)"

text \<open>The two bitmap bytes of a page.\<close>

definition write_bitmap :: "buffer \<Rightarrow> nat \<Rightarrow> buffer" where
  "write_bitmap binary pageIndex =
     (let bitmapOffset = pageIndex * PAGE_SIZE + 32
      in binary[bitmapOffset := 0xAA, bitmapOffset + 1 := 0xAA])"

text \<open>The state of the loops: the buffer, \<open>pageIndex\<close> and \<open>entryIndex\<close>.\<close>

type_synonym gen_state = "buffer \<times> nat \<times> nat"

text \<open>The inner loop over the key-value pairs of one namespace.\<close>

fun gen_entries :: "nat \<Rightarrow> nat \<Rightarrow> (string \<times> jsvalue) list \<Rightarrow> gen_state \<Rightarrow> error + gen_state" where
  "gen_entries numPages nsIndex [] st = Inr st"
| "gen_entries numPages nsIndex ((key, v) # rest) (binary, pageIndex, entryIndex) =
     bindE (createEntry nsIndex key v) (\<lambda>entry.
     bindE (writeEntry binary pageIndex entryIndex entry) (\<lambda>b1.
       let entryIndex' = entryIndex + e_span entry
       in if entryIndex' \<ge> ENTRIES_PER_PAGE then
            bindE (finalizePage b1 pageIndex entryIndex') (\<lambda>b2.
              let b3 = write_bitmap b2 (pageIndex + 1)
              in if pageIndex + 1 \<ge> numPages then Inl PartitionTooSmall
                 else gen_entries numPages nsIndex rest (b3, pageIndex + 1, 1))
          else gen_entries numPages nsIndex rest (b1, pageIndex, entryIndex')))"

text \<open>
  The lookup \<open>namespaceMap[namespace]\<close>, as the number that the bytes of an entry take
  from it: \<open>undefined\<close> is stored in a byte as 0, and so is the object
  \<open>Object.prototype\<close>, which is what the lookup of \<open>__proto__\<close> gives.
\<close>

definition ns_lookup :: "(string \<rightharpoonup> nat) \<Rightarrow> string \<Rightarrow> nat" where
  "ns_lookup namespaceMap namespace =
     (if namespace = ''__proto__'' then 0
      else case namespaceMap namespace of None \<Rightarrow> 0 | Some n \<Rightarrow> n)"

definition namespace_entry :: "string \<Rightarrow> nat \<Rightarrow> entry" where
  "namespace_entry namespace nsIndex =
     \<lparr>e_namespace = 0, e_type = 0x01, e_span = 1, e_key = namespace,
      e_data = [of_nat nsIndex]\<rparr>"

text \<open>The outer loop over the namespaces.\<close>

fun gen_namespaces :: "nat \<Rightarrow> (string \<rightharpoonup> nat) \<Rightarrow> nvs_data \<Rightarrow> gen_state \<Rightarrow> error + gen_state" where
  "gen_namespaces numPages namespaceMap [] st = Inr st"
| "gen_namespaces numPages namespaceMap ((namespace, entries) # rest) (binary, pageIndex, entryIndex) =
     (if length entries > 0 then
        (let nsIndex = ns_lookup namespaceMap namespace
         in bindE (writeEntry binary pageIndex entryIndex (namespace_entry namespace nsIndex)) (\<lambda>b1.
            bindE (gen_entries numPages nsIndex entries (b1, pageIndex, entryIndex + 1))
              (gen_namespaces numPages namespaceMap rest)))
      else gen_namespaces numPages namespaceMap rest (binary, pageIndex, entryIndex))"

definition generate :: "nvs_data \<Rightarrow> nat \<Rightarrow> error + buffer" where
  "generate dat partitionSize =
     (let numPages = partitionSize div PAGE_SIZE;
          binary = replicate partitionSize 0xFF;
          namespaceMap = build_namespaceMap dat 0 Map.empty;
          b0 = write_bitmap binary 0
      in bindE (gen_namespaces numPages namespaceMap dat (b0, 0, 1)) (\<lambda>(b, pageIndex, entryIndex).
           if entryIndex > 0 then finalizePage b pageIndex entryIndex else Inr b))"

subsection \<open>parse\<close>

text \<open>\<open>new Uint8Array(buffer, off, n)\<close>: raises unless the \<open>n\<close> bytes from \<open>off\<close> are in the buffer.\<close>

definition view_bytes :: "buffer \<Rightarrow> nat \<Rightarrow> nat \<Rightarrow> error + byte list" where
  "view_bytes binary off n =
     (if off + n \<le> length binary then Inr (slice binary off (off + n)) else Inl RangeError)"

text \<open>The getters of \<open>DataView\<close>, little-endian.\<close>

definition getUint8 :: "buffer \<Rightarrow> nat \<Rightarrow> error + nat" where
  "getUint8 binary off = bindE (view_bytes binary off 1) (\<lambda>bs. Inr (le_value bs))"

definition getUint16 :: "buffer \<Rightarrow> nat \<Rightarrow> error + nat" where
  "getUint16 binary off = bindE (view_bytes binary off 2) (\<lambda>bs. Inr (le_value bs))"

definition getUint32 :: "buffer \<Rightarrow> nat \<Rightarrow> error + nat" where
  "getUint32 binary off = bindE (view_bytes binary off 4) (\<lambda>bs. Inr (le_value bs))"

definition signed_of :: "nat \<Rightarrow> nat \<Rightarrow> int" where
  "signed_of bits n = (if n \<ge> 2 ^ (bits - 1) then int n - 2 ^ bits else int n)"

definition getInt8 :: "buffer \<Rightarrow> nat \<Rightarrow> error + int" where
  "getInt8 binary off = bindE (getUint8 binary off) (\<lambda>n. Inr (signed_of 8 n))"

definition getInt16 :: "buffer \<Rightarrow> nat \<Rightarrow> error + int" where
  "getInt16 binary off = bindE (getUint16 binary off) (\<lambda>n. Inr (signed_of 16 n))"

definition getInt32 :: "buffer \<Rightarrow> nat \<Rightarrow> error + int" where
  "getInt32 binary off = bindE (getUint32 binary off) (\<lambda>n. Inr (signed_of 32 n))"

definition TextDecoder_decode :: "byte list \<Rightarrow> string" where
  "TextDecoder_decode bs = map (\<lambda>b. char_of (unat b)) bs"

text \<open>\<open>a.indexOf(x)\<close>: the first index of \<open>x\<close>, or -1.\<close>

definition indexOf :: "byte list \<Rightarrow> byte \<Rightarrow> int" where
  "indexOf a x = (if x \<in> set a then int (length (takeWhile (\<lambda>y. y \<noteq> x) a)) else - 1)"

text \<open>A number in a template string.\<close>

fun decimal :: "nat \<Rightarrow> string" where
  "decimal n = (if n < 10 then [char_of (48 + n)] else decimal (n div 10) @ [char_of (48 + n mod 10)])"

declare decimal.simps [simp del]

text \<open>
  Objects as ordered mappings: \<open>obj[k] = v\<close> keeps the place of a property that exists and
  puts a new one last. This is the order of insertion; JavaScript enumerates the property
  names that are array indices before the others, which is also where \<open>Object.entries\<close>
  has them in the input of \<open>generate\<close>. A lookup \<open>obj[k]\<close> is a lookup among the
  properties of the object itself: the names that every object inherits from
  \<open>Object.prototype\<close>, such as \<open>constructor\<close>, are outside the embedding, and the
  theorems on \<open>parse\<close> leave them out.
\<close>

fun obj_set :: "'k \<Rightarrow> 'v \<Rightarrow> ('k \<times> 'v) list \<Rightarrow> ('k \<times> 'v) list" where
  "obj_set k v [] = [(k, v)]"
| "obj_set k v ((k', v') # rest) =
     (if k = k' then (k, v) # rest else (k', v') # obj_set k v rest)"

text \<open>\<open>if (!data[key]) data[key] = {}\<close>; a value that exists is an object.\<close>

definition obj_ensure :: "'k \<Rightarrow> ('k \<times> 'v list) list \<Rightarrow> ('k \<times> 'v list) list" where
  "obj_ensure k dat = (case map_of dat k of None \<Rightarrow> obj_set k [] dat | Some inner \<Rightarrow> dat)"

text \<open>\<open>data[namespaceName][key] = value\<close>, for a namespace that exists.\<close>

definition obj_set_in :: "string \<Rightarrow> string \<Rightarrow> jsvalue \<Rightarrow> nvs_data \<Rightarrow> nvs_data" where
  "obj_set_in namespaceName key v dat =
     (case map_of dat namespaceName of
        None \<Rightarrow> dat
      | Some inner \<Rightarrow> obj_set namespaceName (obj_set key v inner) dat)"

text \<open>The loop that gathers the string from the continuation slots \<open>s = 1, ..., span - 1\<close>.\<close>

function read_chunks ::
  "buffer \<Rightarrow> nat \<Rightarrow> nat \<Rightarrow> nat \<Rightarrow> nat \<Rightarrow> nat \<Rightarrow> byte list \<Rightarrow> error + byte list" where
  "read_chunks binary entryOffset strLen span s bytesRead totalBytes =
     (if s < span then
        (let spanOffset = entryOffset + s * ENTRY_SIZE;
             chunkSize = min (strLen - bytesRead) ENTRY_SIZE
         in bindE (view_bytes binary spanOffset chunkSize) (\<lambda>chunk.
              read_chunks binary entryOffset strLen span (s + 1) (bytesRead + chunkSize)
                (overlay totalBytes bytesRead chunk)))
      else Inr totalBytes)"
  by pat_completeness auto
termination
  by (relation "measure (\<lambda>(binary, entryOffset, strLen, span, s, bytesRead, totalBytes). span - s)") auto

declare read_chunks.simps [simp del]

type_synonym parse_state = "nvs_data \<times> (nat \<rightharpoonup> string)"

text \<open>The value of a data entry, or nothing for a type that \<open>parse\<close> does not know.\<close>

definition parse_value :: "buffer \<Rightarrow> nat \<Rightarrow> nat \<Rightarrow> nat \<Rightarrow> error + jsvalue option" where
  "parse_value binary entryOffset type span =
     (if type = unat TYPE_U8 then bindE (getUint8 binary (entryOffset + 24)) (\<lambda>n. Inr (Some (JNumber (int n))))
      else if type = unat TYPE_I8 then bindE (getInt8 binary (entryOffset + 24)) (\<lambda>n. Inr (Some (JNumber n)))
      else if type = unat TYPE_U16 then bindE (getUint16 binary (entryOffset + 24)) (\<lambda>n. Inr (Some (JNumber (int n))))
      else if type = unat TYPE_I16 then bindE (getInt16 binary (entryOffset + 24)) (\<lambda>n. Inr (Some (JNumber n)))
      else if type = unat TYPE_U32 then bindE (getUint32 binary (entryOffset + 24)) (\<lambda>n. Inr (Some (JNumber (int n))))
      else if type = unat TYPE_I32 then bindE (getInt32 binary (entryOffset + 24)) (\<lambda>n. Inr (Some (JNumber n)))
      else if type = unat TYPE_STR then
        bindE (getUint16 binary (entryOffset + 24)) (\<lambda>strLen.
        bindE (read_chunks binary entryOffset strLen span 1 0 (replicate strLen 0)) (\<lambda>totalBytes.
          let nullIndex = indexOf totalBytes 0;
              actualLen = (if nullIndex \<ge> 0 then nat nullIndex else strLen)
          in Inr (Some (JString (TextDecoder_decode (slice totalBytes 0 actualLen))))))
      else if type = unat TYPE_BLOB then
        bindE (getUint16 binary (entryOffset + 20)) (\<lambda>blobLen.
        bindE (view_bytes binary (entryOffset + 24) (min blobLen 8)) (\<lambda>bs. Inr (Some (JBytes bs))))
      else Inr None)"

text \<open>One round of the loop over the slots of a page: the step of \<open>entryIdx\<close> and the new state.\<close>

definition parse_entry :: "buffer \<Rightarrow> nat \<Rightarrow> parse_state \<Rightarrow> error + nat \<times> parse_state" where
  "parse_entry binary entryOffset st =
     (case st of (dat, namespaces) \<Rightarrow>
      bindE (getUint8 binary entryOffset) (\<lambda>namespace.
        if namespace = 0xFF then Inr (1, (dat, namespaces))
        else
          bindE (getUint8 binary (entryOffset + 1)) (\<lambda>type.
          bindE (getUint8 binary (entryOffset + 2)) (\<lambda>span.
          bindE (view_bytes binary (entryOffset + 8) 16) (\<lambda>keyBytes.
            let keyEnd = indexOf keyBytes 0;
                key = TextDecoder_decode (slice keyBytes 0 (if keyEnd > 0 then nat keyEnd else 16))
            in if type = 0x01 \<and> namespace = 0 then
                 bindE (getUint8 binary (entryOffset + 24)) (\<lambda>nsIndex.
                   Inr (span, (obj_ensure key dat, namespaces(nsIndex \<mapsto> key))))
               else
                 let namespaceName =
                       (case namespaces namespace of
                          Some name \<Rightarrow> if name \<noteq> [] then name else ''ns_'' @ decimal namespace
                        | None \<Rightarrow> ''ns_'' @ decimal namespace);
                     dat1 = obj_ensure namespaceName dat
                 in bindE (parse_value binary entryOffset type span) (\<lambda>r.
                      case r of
                        None \<Rightarrow> Inr (1, (dat1, namespaces))
                      | Some v \<Rightarrow> Inr (span, (obj_set_in namespaceName key v dat1, namespaces))))))))"

text \<open>
  The loop over the slots of a page. It does not end when a span byte is 0: then it has
  no result.
\<close>

partial_function (option) parse_entries ::
  "buffer \<Rightarrow> nat \<Rightarrow> nat \<Rightarrow> parse_state \<Rightarrow> (error + parse_state) option" where
  "parse_entries binary pageOffset entryIdx st =
     (if entryIdx < ENTRIES_PER_PAGE then
        (case parse_entry binary (pageOffset + 32 + entryIdx * ENTRY_SIZE) st of
           Inl e \<Rightarrow> Some (Inl e)
         | Inr (step, st') \<Rightarrow> parse_entries binary pageOffset (entryIdx + step) st')
      else Some (Inr st))"

text \<open>The loop over the pages.\<close>

fun parse_pages :: "buffer \<Rightarrow> nat list \<Rightarrow> parse_state \<Rightarrow> (error + parse_state) option" where
  "parse_pages binary [] st = Some (Inr st)"
| "parse_pages binary (pageIdx # rest) st =
     (let pageOffset = pageIdx * PAGE_SIZE
      in case getUint32 binary pageOffset of
           Inl e \<Rightarrow> Some (Inl e)
         | Inr pageState \<Rightarrow>
             if pageState = unat PAGE_STATE_EMPTY \<or> pageState = 0 then parse_pages binary rest st
             else (case parse_entries binary pageOffset 1 st of
                     None \<Rightarrow> None
                   | Some (Inl e) \<Rightarrow> Some (Inl e)
                   | Some (Inr st') \<Rightarrow> parse_pages binary rest st'))"

definition parse :: "buffer \<Rightarrow> (error + nvs_data) option" where
  "parse binary =
     (let numPages = length binary div PAGE_SIZE
      in map_option (map_sum id fst) (parse_pages binary [0..<numPages] ([], Map.empty)))"

section \<open>Layout and closed forms\<close>

text \<open>
  The definitions of this section are not functions of the source: they describe what the
  source functions above do, and the theorems relate the two.
\<close>

subsection \<open>What writeEntry and finalizePage store\<close>

text \<open>
  The entries that \<open>generate\<close> hands to \<open>writeEntry\<close> come from \<open>createEntry\<close> or
  are namespace definitions: the span of a string is one slot more than its payload
  takes, and a number takes one slot and at most 8 bytes.
\<close>

definition wf_entry :: "entry \<Rightarrow> bool" where
  "wf_entry e \<longleftrightarrow>
     (if e_type e = TYPE_STR \<or> e_type e = TYPE_BLOB
      then e_data e \<noteq> [] \<and> e_span e = 1 + ceil32 (length (e_data e))
      else length (e_data e) \<le> 8 \<and> e_span e = 1)"

text \<open>
  The bytes that \<open>writeEntry\<close> stores from offset 8 on: the UTF-8 bytes of the first 15
  characters of the key, padded with zeros to 16 bytes when they are fewer. They are more
  than 16 when the 15 characters take more than 16 bytes.
\<close>

definition key_field :: "string \<Rightarrow> byte list" where
  "key_field k = pad_zero 16 (TextEncoder_encode (take 15 k))"

text \<open>The bytes from its offset on that \<open>writeEntry\<close> needs in the buffer.\<close>

definition entry_need :: "entry \<Rightarrow> nat" where
  "entry_need e =
     max (8 + length (key_field (e_key e)))
       (if e_type e = TYPE_STR \<or> e_type e = TYPE_BLOB then 32 + length (e_data e)
        else 24 + length (e_data e))"

text \<open>
  The bytes from its offset on that \<open>writeEntry\<close> may store to: the slots of the span,
  and the bytes of the key where they go further.
\<close>

definition entry_reach :: "entry \<Rightarrow> nat" where
  "entry_reach e = max (32 * e_span e) (8 + length (key_field (e_key e)))"

text \<open>The buffer after \<open>writeEntry\<close>, before and after the checksum is stored.\<close>

definition entry_body :: "buffer \<Rightarrow> nat \<Rightarrow> entry \<Rightarrow> buffer" where
  "entry_body b off e =
     (let c = overlay (overlay b off [of_nat (e_namespace e), e_type e, of_nat (e_span e), 0xFF])
                (off + 8) (key_field (e_key e))
      in if e_type e = TYPE_STR \<or> e_type e = TYPE_BLOB
         then overlay (overlay c (off + 24) (uint16_le (of_nat (length (e_data e))))) (off + 32) (e_data e)
         else overlay c (off + 24) (e_data e))"

definition entry_written :: "buffer \<Rightarrow> nat \<Rightarrow> entry \<Rightarrow> buffer" where
  "entry_written b off e =
     (let c = entry_body b off e
      in overlay c (off + 4) (uint32_le (calculateCRC32 (crc_window c off))))"

text \<open>The buffer after \<open>finalizePage\<close>.\<close>

definition header_written :: "buffer \<Rightarrow> nat \<Rightarrow> buffer" where
  "header_written b p =
     (let off = p * PAGE_SIZE;
          c = overlay (overlay (overlay b off (uint32_le PAGE_STATE_ACTIVE)) (off + 4) (uint32_le (of_nat p)))
                (off + 8) (uint32_le 0xFFFFFFFF)
      in overlay c (off + 28) (uint32_le (calculateCRC32 (slice c off (off + 28)))))"

text \<open>
  The slot at \<open>off\<close> holds the entry \<open>e\<close>, with its checksum; the key field holds the
  first 16 of the bytes stored for the key.
\<close>

definition slot_holds :: "buffer \<Rightarrow> nat \<Rightarrow> entry \<Rightarrow> bool" where
  "slot_holds b off e \<longleftrightarrow>
     off + 32 \<le> length b \<and>
     b ! off = of_nat (e_namespace e) \<and> b ! (off + 1) = e_type e \<and>
     b ! (off + 2) = of_nat (e_span e) \<and> b ! (off + 3) = 0xFF \<and>
     slice b (off + 8) (off + 24) = take 16 (key_field (e_key e)) \<and>
     (if e_type e = TYPE_STR \<or> e_type e = TYPE_BLOB
      then slice b (off + 24) (off + 26) = uint16_le (of_nat (length (e_data e)))
      else length (e_data e) \<le> 8 \<and> slice b (off + 24) (off + 24 + length (e_data e)) = e_data e) \<and>
     slice b (off + 4) (off + 8)
       = uint32_le (calculateCRC32 (slice b off (off + 4) @ slice b (off + 8) (off + 32)))"

subsection \<open>Where generate puts the entries\<close>

text \<open>A cursor is \<open>(pageIndex, entryIndex)\<close>; a placed entry is an entry with the cursor it is written at.\<close>

type_synonym cursor = "nat \<times> nat"

type_synonym placed = "nat \<times> nat \<times> entry"

text \<open>The cursor after an entry of the given span: the page changes once the index reaches 126.\<close>

fun advance :: "cursor \<Rightarrow> nat \<Rightarrow> cursor" where
  "advance (pageIndex, entryIndex) span =
     (if entryIndex + span \<ge> ENTRIES_PER_PAGE then (pageIndex + 1, 1)
      else (pageIndex, entryIndex + span))"

text \<open>
  The calls of \<open>writeEntry\<close> that the loops of \<open>generate\<close> make, in order, and the cursor
  they end at. The buffer plays no part in either; where \<open>createEntry\<close> fails the list stops.
\<close>

fun place_entries :: "nat \<Rightarrow> (string \<times> jsvalue) list \<Rightarrow> cursor \<Rightarrow> placed list" where
  "place_entries nsIndex [] c = []"
| "place_entries nsIndex ((key, v) # rest) c =
     (case createEntry nsIndex key v of
        Inl err \<Rightarrow> []
      | Inr e \<Rightarrow> (fst c, snd c, e) # place_entries nsIndex rest (advance c (e_span e)))"

fun end_entries :: "nat \<Rightarrow> (string \<times> jsvalue) list \<Rightarrow> cursor \<Rightarrow> cursor" where
  "end_entries nsIndex [] c = c"
| "end_entries nsIndex ((key, v) # rest) c =
     (case createEntry nsIndex key v of
        Inl err \<Rightarrow> c
      | Inr e \<Rightarrow> end_entries nsIndex rest (advance c (e_span e)))"

fun place_namespaces :: "(string \<rightharpoonup> nat) \<Rightarrow> nvs_data \<Rightarrow> cursor \<Rightarrow> placed list" where
  "place_namespaces m [] c = []"
| "place_namespaces m ((namespace, entries) # rest) c =
     (if length entries > 0 then
        (fst c, snd c, namespace_entry namespace (ns_lookup m namespace))
        # place_entries (ns_lookup m namespace) entries (fst c, snd c + 1)
        @ place_namespaces m rest (end_entries (ns_lookup m namespace) entries (fst c, snd c + 1))
      else place_namespaces m rest c)"

fun end_namespaces :: "(string \<rightharpoonup> nat) \<Rightarrow> nvs_data \<Rightarrow> cursor \<Rightarrow> cursor" where
  "end_namespaces m [] c = c"
| "end_namespaces m ((namespace, entries) # rest) c =
     (if length entries > 0 then
        end_namespaces m rest (end_entries (ns_lookup m namespace) entries (fst c, snd c + 1))
      else end_namespaces m rest c)"

definition placements :: "nvs_data \<Rightarrow> placed list" where
  "placements dat = place_namespaces (build_namespaceMap dat 0 Map.empty) dat (0, 1)"

definition last_cursor :: "nvs_data \<Rightarrow> cursor" where
  "last_cursor dat = end_namespaces (build_namespaceMap dat 0 Map.empty) dat (0, 1)"

text \<open>
  The loops of \<open>generate\<close> on the cursor alone, for a buffer of \<open>L\<close> bytes and \<open>N\<close> pages:
  the same errors at the same entries, and the last cursor.
\<close>

fun run_entries :: "nat \<Rightarrow> nat \<Rightarrow> nat \<Rightarrow> (string \<times> jsvalue) list \<Rightarrow> cursor \<Rightarrow> error + cursor" where
  "run_entries L N nsIndex [] c = Inr c"
| "run_entries L N nsIndex ((key, v) # rest) c =
     bindE (createEntry nsIndex key v) (\<lambda>e.
       if entry_offset (fst c) (snd c) + entry_need e > L then Inl RangeError
       else if snd c + e_span e \<ge> ENTRIES_PER_PAGE \<and> fst c + 1 \<ge> N then Inl PartitionTooSmall
       else run_entries L N nsIndex rest (advance c (e_span e)))"

fun run_namespaces :: "nat \<Rightarrow> nat \<Rightarrow> (string \<rightharpoonup> nat) \<Rightarrow> nvs_data \<Rightarrow> cursor \<Rightarrow> error + cursor" where
  "run_namespaces L N m [] c = Inr c"
| "run_namespaces L N m ((namespace, entries) # rest) c =
     (if length entries > 0 then
        (if entry_offset (fst c) (snd c) + entry_need (namespace_entry namespace (ns_lookup m namespace)) > L
         then Inl RangeError
         else bindE (run_entries L N (ns_lookup m namespace) entries (fst c, snd c + 1))
                (run_namespaces L N m rest))
      else run_namespaces L N m rest c)"

definition run_generate :: "nvs_data \<Rightarrow> nat \<Rightarrow> error + cursor" where
  "run_generate dat partitionSize =
     bindE (run_namespaces partitionSize (partitionSize div PAGE_SIZE)
              (build_namespaceMap dat 0 Map.empty) dat (0, 1))
       (\<lambda>c. if snd c > 0 \<and> \<not> fst c * PAGE_SIZE + 32 \<le> partitionSize then Inl RangeError else Inr c)"

text \<open>The buffer after one round of the inner loop.\<close>

definition step_buffer :: "buffer \<Rightarrow> cursor \<Rightarrow> entry \<Rightarrow> buffer" where
  "step_buffer b c e =
     (let b1 = entry_written b (entry_offset (fst c) (snd c)) e
      in if snd c + e_span e \<ge> ENTRIES_PER_PAGE
         then write_bitmap (header_written b1 (fst c)) (fst c + 1) else b1)"

text \<open>
  The bytes the image is made of: the slots of the spans of the entries, page headers and
  bitmap slots. The bytes that the write of an entry reaches are the slots of its span and
  the bytes of its key beyond them.
\<close>

definition span_bytes :: "placed \<Rightarrow> nat set" where
  "span_bytes x = (case x of (p, i, e) \<Rightarrow> {entry_offset p i ..< entry_offset p i + 32 * e_span e})"

definition reach_bytes :: "placed \<Rightarrow> nat set" where
  "reach_bytes x = (case x of (p, i, e) \<Rightarrow> {entry_offset p i ..< entry_offset p i + entry_reach e})"

definition header_bytes :: "nat \<Rightarrow> nat set" where
  "header_bytes q = {q * PAGE_SIZE ..< q * PAGE_SIZE + 32}"

definition bitmap_bytes :: "nat \<Rightarrow> nat set" where
  "bitmap_bytes q = {q * PAGE_SIZE + 32 ..< q * PAGE_SIZE + 64}"

definition covered :: "nvs_data \<Rightarrow> nat set" where
  "covered dat =
     (\<Union>x \<in> set (placements dat). span_bytes x)
     \<union> (\<Union>q \<in> {..fst (last_cursor dat)}. header_bytes q \<union> bitmap_bytes q)"

definition touched :: "nvs_data \<Rightarrow> nat set" where
  "touched dat =
     (\<Union>x \<in> set (placements dat). reach_bytes x)
     \<union> (\<Union>q \<in> {..fst (last_cursor dat)}. header_bytes q \<union> bitmap_bytes q)"

text \<open>The cursors that the loops of \<open>generate\<close> pass through, and the offset of a cursor.\<close>

definition cur_ok :: "cursor \<Rightarrow> bool" where
  "cur_ok c \<longleftrightarrow> 1 \<le> snd c \<and> snd c \<le> 126"

definition cur_off :: "cursor \<Rightarrow> nat" where
  "cur_off c = entry_offset (fst c) (snd c)"

text \<open>The values that \<open>createEntry\<close> has a branch for.\<close>

definition supported :: "jsvalue \<Rightarrow> bool" where
  "supported v = (case v of JString s \<Rightarrow> True | JNumber n \<Rightarrow> True | _ \<Rightarrow> False)"

definition supported_data :: "nvs_data \<Rightarrow> bool" where
  "supported_data dat \<longleftrightarrow> (\<forall>(name, kvs) \<in> set dat. \<forall>(key, v) \<in> set kvs. supported v)"

text \<open>
  The checksum as the format names it: the reflected CRC-32 with polynomial \<open>0xEDB88320\<close>,
  initial value \<open>0xFFFFFFFF\<close> and final XOR \<open>0xFFFFFFFF\<close>, one bit at a time.
\<close>

definition crc32_bit :: "32 word \<Rightarrow> 32 word" where
  "crc32_bit c = (if bit c 0 then drop_bit 1 c XOR 0xEDB88320 else drop_bit 1 c)"

definition crc32_ieee :: "byte list \<Rightarrow> 32 word" where
  "crc32_ieee bs = fold (\<lambda>d c. (crc32_bit ^^ 8) (c XOR ucast d)) bs 0xFFFFFFFF XOR 0xFFFFFFFF"

text \<open>The input with every key replaced by its image under \<open>f\<close>.\<close>

definition rekey :: "(string \<Rightarrow> string) \<Rightarrow> nvs_data \<Rightarrow> nvs_data" where
  "rekey f dat = map (\<lambda>(name, kvs). (name, map (\<lambda>(key, v). (f key, v)) kvs)) dat"

text \<open>The cursors at which the namespace definitions are written.\<close>

fun def_places :: "(string \<rightharpoonup> nat) \<Rightarrow> nvs_data \<Rightarrow> cursor \<Rightarrow> cursor list" where
  "def_places m [] c = []"
| "def_places m ((namespace, entries) # rest) c =
     (if length entries > 0 then
        c # def_places m rest (end_entries (ns_lookup m namespace) entries (fst c, snd c + 1))
      else def_places m rest c)"

definition definition_slots :: "nvs_data \<Rightarrow> cursor list" where
  "definition_slots dat = def_places (build_namespaceMap dat 0 Map.empty) dat (0, 1)"

text \<open>The namespaces that \<open>generate\<close> does not skip, in the order of the input.\<close>

definition nonempty_namespaces :: "nvs_data \<Rightarrow> nvs_data" where
  "nonempty_namespaces dat = filter (\<lambda>(name, kvs). kvs \<noteq> []) dat"

text \<open>An input of 256 namespaces \<open>aa\<close>, \<open>ab\<close>, ..., \<open>pp\<close> with one value each.\<close>

definition many_namespaces :: nvs_data where
  "many_namespaces =
     map (\<lambda>(x, y). ([x, y], [(''v'', JNumber 0)]))
       (List.product ''abcdefghijklmnop'' ''abcdefghijklmnop'')"

subsection \<open>What parse reads back\<close>

text \<open>
  The rest of \<open>parse\<close> from a cursor on: the slots of the page from the cursor, then the
  pages after it.
\<close>

definition parse_from :: "buffer \<Rightarrow> nat \<Rightarrow> cursor \<Rightarrow> parse_state \<Rightarrow> (error + parse_state) option" where
  "parse_from binary N c st =
     (case parse_entries binary (fst c * PAGE_SIZE) (snd c) st of
        None \<Rightarrow> None
      | Some (Inl e) \<Rightarrow> Some (Inl e)
      | Some (Inr st') \<Rightarrow> parse_pages binary [fst c + 1 ..< N] st')"

text \<open>
  The property names that an object inherits from \<open>Object.prototype\<close>: \<open>data[key]\<close> finds
  them in an object that has no such property of its own.
\<close>

definition inherited_names :: "string list" where
  "inherited_names =
     [''constructor'', ''hasOwnProperty'', ''isPrototypeOf'', ''propertyIsEnumerable'',
      ''toLocaleString'', ''toString'', ''valueOf'', ''__proto__'', ''__defineGetter__'',
      ''__defineSetter__'', ''__lookupGetter__'', ''__lookupSetter__'']"

text \<open>Text that \<open>parse\<close> reads back as it is: ASCII without the NUL character.\<close>

definition good_text :: "string \<Rightarrow> bool" where
  "good_text s \<longleftrightarrow> (\<forall>c \<in> set s. c \<noteq> CHR 0x00 \<and> (of_char c :: nat) < 128)"

text \<open>A namespace name or key that fits the key field and is no inherited property name.\<close>

definition good_name :: "string \<Rightarrow> bool" where
  "good_name s \<longleftrightarrow> s \<noteq> [] \<and> length s \<le> 15 \<and> good_text s \<and> s \<notin> set inherited_names"

definition good_value :: "jsvalue \<Rightarrow> bool" where
  "good_value v = (case v of JString s \<Rightarrow> good_text s | _ \<Rightarrow> True)"

text \<open>
  The inputs on which the image determines the names: distinct good names, at most 254
  namespaces with values, strings of good text.
\<close>

definition well_formed :: "nvs_data \<Rightarrow> bool" where
  "well_formed dat \<longleftrightarrow>
     distinct (map fst dat) \<and> length (nonempty_namespaces dat) \<le> 254 \<and>
     (\<forall>(name, kvs) \<in> set dat. good_name name \<and> distinct (map fst kvs) \<and>
        (\<forall>(key, v) \<in> set kvs. good_name key \<and> good_value v))"

text \<open>No entry reaches beyond slot 125 of its page.\<close>

definition fits_pages :: "nvs_data \<Rightarrow> bool" where
  "fits_pages dat \<longleftrightarrow> (\<forall>(p, i, e) \<in> set (placements dat). i + e_span e \<le> ENTRIES_PER_PAGE)"

text \<open>
  What \<open>parse\<close> reads back from the image of an input: the namespaces that have values,
  and every integer as the unsigned 32-bit number it is stored as.
\<close>

definition decoded_value :: "jsvalue \<Rightarrow> jsvalue" where
  "decoded_value v = (case v of JNumber n \<Rightarrow> JNumber (n mod 2 ^ 32) | _ \<Rightarrow> v)"

definition decoded_entries :: "(string \<times> jsvalue) list \<Rightarrow> (string \<times> jsvalue) list" where
  "decoded_entries kvs = map (\<lambda>(key, v). (key, decoded_value v)) kvs"

definition decoded :: "nvs_data \<Rightarrow> nvs_data" where
  "decoded dat = map (\<lambda>(name, kvs). (name, decoded_entries kvs)) (nonempty_namespaces dat)"


text \<open>The pages up to \<open>P\<close> are in the buffer and their state is \<open>ACTIVE\<close>.\<close>

definition active_pages :: "buffer \<Rightarrow> nat \<Rightarrow> nat \<Rightarrow> bool" where
  "active_pages b N P \<longleftrightarrow>
     (\<forall>q \<le> P. q < N \<and> q * PAGE_SIZE + 4 \<le> length b \<and>
        slice b (q * PAGE_SIZE) (q * PAGE_SIZE + 4) = uint32_le PAGE_STATE_ACTIVE)"

text \<open>
  The buffer holds the placed entries, each within the slots of its page, a string with
  its payload.
\<close>

definition image_holds :: "buffer \<Rightarrow> placed list \<Rightarrow> bool" where
  "image_holds b xs \<longleftrightarrow>
     (\<forall>(p, i, e) \<in> set xs.
        slot_holds b (entry_offset p i) e \<and> i + e_span e \<le> ENTRIES_PER_PAGE \<and>
        (e_type e = TYPE_STR \<longrightarrow>
           slice b (entry_offset p i + 32) (entry_offset p i + 32 + length (e_data e)) = e_data e))"


text \<open>
  The inputs that the image stores as they are: every namespace has values and every
  integer is an unsigned 32-bit number.
\<close>

definition exact_input :: "nvs_data \<Rightarrow> bool" where
  "exact_input dat \<longleftrightarrow>
     (\<forall>(name, kvs) \<in> set dat. kvs \<noteq> [] \<and>
        (\<forall>(key, v) \<in> set kvs. case v of JNumber n \<Rightarrow> 0 \<le> n \<and> n < 2 ^ 32 | _ \<Rightarrow> True))"

section \<open>Basic facts\<close>

lemma bindE_simps [simp]:
  "bindE (Inl e) f = Inl e"
  "bindE (Inr x) f = f x"
  by (simp_all add: bindE_def)

lemma bindE_eq_Inr: "bindE m f = Inr y \<longleftrightarrow> (\<exists>x. m = Inr x \<and> f x = Inr y)"
  by (cases m) simp_all

lemma length_overlay [simp]:
  "off + length src \<le> length b \<Longrightarrow> length (overlay b off src) = length b"
  by (simp add: overlay_def)

lemma nth_overlay:
  "off + length src \<le> length b \<Longrightarrow>
   overlay b off src ! k = (if off \<le> k \<and> k < off + length src then src ! (k - off) else b ! k)"
  by (auto simp: overlay_def nth_append)

lemma overlay_Nil [simp]: "overlay b off [] = b"
  by (simp add: overlay_def)

lemma overlay_split:
  assumes "off + length xs + length ys \<le> length b"
  shows "overlay (overlay b off xs) (off + length xs) ys = overlay b off (xs @ ys)"
  using assms by (intro nth_equalityI) (auto simp: nth_overlay nth_append)

lemma length_uint16_le [simp]: "length (uint16_le v) = 2"
  by (simp add: uint16_le_def)

lemma length_uint32_le [simp]: "length (uint32_le v) = 4"
  by (simp add: uint32_le_def)

lemma length_key_field: "length (key_field k) = max 16 (length (TextEncoder_encode (take 15 k)))"
  by (simp add: key_field_def pad_zero_def)

lemma key_field_16 [simp]: "16 \<le> length (key_field k)"
  by (simp add: length_key_field)

lemma entry_needD:
  assumes "off + entry_need e \<le> L"
  shows "off + 8 + length (key_field (e_key e)) \<le> L" "off + 24 \<le> L"
    "e_type e = TYPE_STR \<or> e_type e = TYPE_BLOB \<Longrightarrow> off + 32 + length (e_data e) \<le> L"
    "\<not> (e_type e = TYPE_STR \<or> e_type e = TYPE_BLOB) \<Longrightarrow> off + 24 + length (e_data e) \<le> L"
proof -
  show k: "off + 8 + length (key_field (e_key e)) \<le> L" using assms by (simp add: entry_need_def)
  show "off + 24 \<le> L" using k key_field_16[of "e_key e"] by linarith
  show "off + 32 + length (e_data e) \<le> L" if "e_type e = TYPE_STR \<or> e_type e = TYPE_BLOB"
    using assms that by (simp add: entry_need_def)
  show "off + 24 + length (e_data e) \<le> L" if "\<not> (e_type e = TYPE_STR \<or> e_type e = TYPE_BLOB)"
    using assms that by (simp add: entry_need_def)
qed

lemma entry_needI:
  assumes "off + 8 + length (key_field (e_key e)) \<le> L"
    and "e_type e = TYPE_STR \<or> e_type e = TYPE_BLOB \<Longrightarrow> off + 32 + length (e_data e) \<le> L"
    and "\<not> (e_type e = TYPE_STR \<or> e_type e = TYPE_BLOB) \<Longrightarrow> off + 24 + length (e_data e) \<le> L"
  shows "off + entry_need e \<le> L"
  using assms by (auto simp: entry_need_def max_def)

lemma set_bytes_eq:
  "set_bytes b src off = (if off + length src \<le> length b then Inr (overlay b off src) else Inl RangeError)"
  by (simp add: set_bytes_def)

lemma fold_update_length [simp]:
  "length (fold (\<lambda>i b. b[f i := v]) xs b) = length b"
  by (induction xs arbitrary: b) simp_all

lemma fold_update_nth:
  "k < length b \<Longrightarrow>
   fold (\<lambda>i b. b[f i := v]) xs b ! k = (if k \<in> f ` set xs then v else b ! k)"
  by (induction xs arbitrary: b) (auto simp: nth_list_update)

lemma key_store:
  assumes "off + 8 + length (pad_zero 16 kb) \<le> length b"
  shows "fold (\<lambda>i b. b[off + 8 + i := 0]) [length kb..<16] (overlay b (off + 8) kb)
         = overlay b (off + 8) (pad_zero 16 kb)"
proof (cases "length kb < 16")
  case False
  then show ?thesis by (simp add: pad_zero_def)
next
  case True
  then have assms: "off + 24 \<le> length b" "length kb \<le> 15"
    using assms by (simp_all add: pad_zero_def)
  show ?thesis
  proof (rule nth_equalityI)
  show "length (fold (\<lambda>i b. b[off + 8 + i := 0]) [length kb..<16] (overlay b (off + 8) kb))
        = length (overlay b (off + 8) (pad_zero 16 kb))"
    using assms by (simp add: pad_zero_def)
next
  fix k assume "k < length (fold (\<lambda>i b. b[off + 8 + i := 0]) [length kb..<16] (overlay b (off + 8) kb))"
  then have k: "k < length b" using assms by simp
  have img: "k \<in> (\<lambda>i. off + 8 + i) ` set [length kb..<16] \<longleftrightarrow> off + 8 + length kb \<le> k \<and> k < off + 24"
    by (auto simp: image_iff)
  show "fold (\<lambda>i b. b[off + 8 + i := 0]) [length kb..<16] (overlay b (off + 8) kb) ! k
        = overlay b (off + 8) (pad_zero 16 kb) ! k"
    using assms k
    by (auto simp: fold_update_nth img nth_overlay pad_zero_def nth_append)
qed
qed

lemma header_store:
  assumes "off + 4 \<le> length b"
  shows "b[off := a0, off + 1 := a1, off + 2 := a2, off + 3 := a3] = overlay b off [a0, a1, a2, a3]"
  using assms
  by (intro nth_equalityI) (auto simp: nth_overlay nth_list_update nth_Cons split: nat.splits)

lemma ceil32_bounds: "n \<le> 32 * ceil32 n" "n \<noteq> 0 \<Longrightarrow> 32 * ceil32 n < n + 32"
  by (simp_all add: ceil32_def)

lemma slice_chunk: "slice dat d (d + 32) = take 32 (drop d dat)"
  by (simp add: slice_def)

lemma write_chunks_closed:
  assumes "1 \<le> i" and "span = 1 + ceil32 (length dat)" and "d = 32 * (i - 1)"
  shows "write_chunks b off dat d i span =
           (if off + 32 * i + (length dat - d) \<le> length b \<or> span \<le> i
            then Inr (overlay b (off + 32 * i) (drop d dat)) else Inl RangeError)"
  using assms
proof (induction "span - i" arbitrary: i d b)
  case 0
  then have "span \<le> i" by simp
  moreover from this 0 have "length dat \<le> d"
    using ceil32_bounds(1)[of "length dat"] by (cases i) auto 
  ultimately show ?case
    by (subst write_chunks.simps) simp
next
  case (Suc n)
  then have lt: "i < span" by simp
  have dlt: "d < length dat"
  proof (rule ccontr)
    assume "\<not> d < length dat"
    then have "length dat \<le> 32 * (i - 1)" using Suc.prems by simp
    then have "ceil32 (length dat) \<le> i - 1" by (simp add: ceil32_def) 
    with lt Suc.prems show False by simp
  qed
  let ?chunk = "take 32 (drop d dat)"
  show ?case
  proof (cases "off + 32 * i + length ?chunk \<le> length b")
    case False
    then have "\<not> off + 32 * i + (length dat - d) \<le> length b" by (simp add: min_def split: if_splits)
    with False lt show ?thesis
      by (subst write_chunks.simps) (simp add: slice_chunk set_bytes_eq mult.commute)
  next
    case True
    have step: "write_chunks b off dat d i span
                = write_chunks (overlay b (off + 32 * i) ?chunk) off dat (d + 32) (i + 1) span"
      using lt True by (subst write_chunks.simps) (simp add: slice_chunk set_bytes_eq mult.commute)
    have lenb: "length (overlay b (off + 32 * i) ?chunk) = length b"
      using True by simp
    have ih: "write_chunks (overlay b (off + 32 * i) ?chunk) off dat (d + 32) (i + 1) span =
           (if off + 32 * (i + 1) + (length dat - (d + 32)) \<le> length b \<or> span \<le> i + 1
            then Inr (overlay (overlay b (off + 32 * i) ?chunk) (off + 32 * (i + 1)) (drop (d + 32) dat))
            else Inl RangeError)"
    proof -
      have p1: "n = span - (i + 1)" using Suc.hyps(2) by simp
      have p2: "1 \<le> i + 1" by simp
      have p4: "d + 32 = 32 * ((i + 1) - 1)" using Suc.prems by (cases i) auto
      show ?thesis
        using Suc.hyps(1)[OF p1 p2 Suc.prems(2) p4, of "overlay b (off + 32 * i) ?chunk"]
        unfolding lenb .
    qed
    show ?thesis
    proof (cases "span \<le> i + 1")
      case last: True
      then have "i = ceil32 (length dat)" using lt Suc.prems by simp
      then have "length dat \<le> d + 32" using ceil32_bounds(1)[of "length dat"] Suc.prems by (cases i) auto
      then have ch: "?chunk = drop d dat" and emp: "drop (d + 32) dat = []" by simp_all
      have fits: "off + 32 * i + (length dat - d) \<le> length b" using True ch by simp
      have "write_chunks b off dat d i span = Inr (overlay b (off + 32 * i) (drop d dat))"
        unfolding step ih using last emp ch by simp
      then show ?thesis using fits by simp
    next
      case more: False
      then have "i < ceil32 (length dat)" using Suc.prems by simp
      then have "32 * i < length dat" using ceil32_bounds(2)[of "length dat"] dlt by (simp add: ceil32_def)
      then have full: "d + 32 \<le> length dat" using Suc.prems by (cases i) auto
      then have len: "length ?chunk = 32" by simp
      have app: "?chunk @ drop (d + 32) dat = drop d dat"
        by (metis add.commute drop_drop append_take_drop_id)
      have cond: "off + 32 * (i + 1) + (length dat - (d + 32)) = off + 32 * i + (length dat - d)"
        using full by simp
      show ?thesis
      proof (cases "off + 32 * i + (length dat - d) \<le> length b")
        case fits: True
        have "overlay (overlay b (off + 32 * i) ?chunk) (off + 32 * i + length ?chunk) (drop (d + 32) dat)
              = overlay b (off + 32 * i) (?chunk @ drop (d + 32) dat)"
          using fits full by (intro overlay_split) simp
        then have "overlay (overlay b (off + 32 * i) ?chunk) (off + 32 * (i + 1)) (drop (d + 32) dat)
              = overlay b (off + 32 * i) (drop d dat)"
          unfolding len app by (simp add: ac_simps)
        moreover have "write_chunks b off dat d i span
              = Inr (overlay (overlay b (off + 32 * i) ?chunk) (off + 32 * (i + 1)) (drop (d + 32) dat))"
          unfolding step ih cond using fits by simp
        ultimately show ?thesis using fits by simp
      next
        case nofit: False
        have "write_chunks b off dat d i span = Inl RangeError"
          unfolding step ih cond using nofit more by simp
        then show ?thesis using nofit lt by simp
      qed
    qed
  qed
qed

lemma ceil32_pos: "n \<noteq> 0 \<Longrightarrow> 1 \<le> ceil32 n"
  by (simp add: ceil32_def)

lemma writeEntry_wf:
  assumes wf: "wf_entry e"
  shows "writeEntry b p i e =
           (if entry_offset p i + entry_need e \<le> length b
            then Inr (entry_written b (entry_offset p i) e) else Inl RangeError)"
proof -
  define off where "off = entry_offset p i"
  define kb where "kb = TextEncoder_encode (take 15 (e_key e))"
  define b1 where "b1 = b[off := of_nat (e_namespace e), off + 1 := e_type e,
                      off + 2 := of_nat (e_span e), off + 3 := 0xFF]"
  define b3 where "b3 = fold (\<lambda>i b. b[off + 8 + i := 0]) [length kb..<16] (overlay b1 (off + 8) kb)"
  define dn where "dn = (if e_type e = TYPE_STR \<or> e_type e = TYPE_BLOB then 32 + length (e_data e)
                         else 24 + length (e_data e))"
  have kf: "key_field (e_key e) = pad_zero 16 kb" by (simp add: key_field_def kb_def)
  have need: "off + entry_need e \<le> length b \<longleftrightarrow> off + 8 + length kb \<le> length b \<and> off + dn \<le> length b"
    by (auto simp: entry_need_def kf pad_zero_def dn_def)
  have l1: "length b1 = length b" by (simp add: b1_def)
  have unfold: "writeEntry b p i e =
      bindE (set_bytes b1 kb (off + 8)) (\<lambda>b2.
         let b3 = fold (\<lambda>i b. b[off + 8 + i := 0]) [length kb..<16] b2
         in bindE
              (if e_type e = TYPE_STR \<or> e_type e = TYPE_BLOB then
                 bindE (setUint16 b3 (off + 24) (of_nat (length (e_data e)))) (\<lambda>b4.
                   write_chunks b4 off (e_data e) 0 1 (e_span e))
               else set_bytes b3 (e_data e) (off + 24))
              (\<lambda>b5. setUint32 b5 (off + 4) (calculateCRC32 (crc_window b5 off))))"
    unfolding writeEntry_def off_def kb_def b1_def Let_def ..
  show ?thesis
  proof (cases "off + 8 + length kb \<le> length b")
    case False
    then have "\<not> off + entry_need e \<le> length b" using need by simp
    with False show ?thesis
      unfolding unfold off_def[symmetric] by (simp add: set_bytes_eq l1)
  next
    case keyfits: True
    have l3: "length b3 = length b" using keyfits by (simp add: b3_def l1)
    have step1: "writeEntry b p i e =
        bindE (if e_type e = TYPE_STR \<or> e_type e = TYPE_BLOB then
                 bindE (setUint16 b3 (off + 24) (of_nat (length (e_data e)))) (\<lambda>b4.
                   write_chunks b4 off (e_data e) 0 1 (e_span e))
               else set_bytes b3 (e_data e) (off + 24))
              (\<lambda>b5. setUint32 b5 (off + 4) (calculateCRC32 (crc_window b5 off)))"
      unfolding unfold using keyfits by (simp add: set_bytes_eq l1 b3_def Let_def)
    show ?thesis
    proof (cases "off + entry_need e \<le> length b")
      case nofit: False
      then have dnf: "\<not> off + dn \<le> length b" using need keyfits by simp
      show ?thesis
      proof (cases "e_type e = TYPE_STR \<or> e_type e = TYPE_BLOB")
        case False
        with nofit dnf show ?thesis
          unfolding step1 off_def[symmetric] by (simp add: set_bytes_eq l3 dn_def)
      next
        case str: True
        with wf have sp: "e_span e = 1 + ceil32 (length (e_data e))" and ne: "e_data e \<noteq> []"
          by (simp_all add: wf_entry_def)
        have "ceil32 (length (e_data e)) \<noteq> 0" using ceil32_pos[of "length (e_data e)"] ne by simp
        then have "\<not> e_span e \<le> 1" using sp by simp
        moreover have "\<not> off + 32 + length (e_data e) \<le> length b"
          using dnf str by (simp add: dn_def)
        ultimately show ?thesis
          unfolding step1 off_def[symmetric] using str nofit
          by (simp add: setUint16_def set_bytes_eq l3 write_chunks_closed[OF _ sp])
      qed
    next
      case fits: True
      note nd = entry_needD[OF fits]
      have o24: "off + 24 \<le> length b" by (rule nd(2))
      have b1': "b1 = overlay b off [of_nat (e_namespace e), e_type e, of_nat (e_span e), 0xFF]"
        unfolding b1_def using o24 by (intro header_store) simp
      have b3': "b3 = overlay b1 (off + 8) (key_field (e_key e))"
        unfolding b3_def kf using nd(1) l1 by (intro key_store) (simp add: kf)
      show ?thesis
      proof (cases "e_type e = TYPE_STR \<or> e_type e = TYPE_BLOB")
        case False
        have d24: "off + 24 + length (e_data e) \<le> length b" using nd(4) False by simp
        have "entry_body b off e = overlay b3 (off + 24) (e_data e)"
          using False by (simp add: entry_body_def b3' b1')
        moreover have "length (overlay b3 (off + 24) (e_data e)) = length b"
          using d24 by (simp add: l3)
        ultimately show ?thesis
          unfolding step1 off_def[symmetric] using False fits d24
          by (simp add: set_bytes_eq setUint32_def l3 entry_written_def Let_def)
      next
        case str: True
        with wf have sp: "e_span e = 1 + ceil32 (length (e_data e))" and ne: "e_data e \<noteq> []"
          by (simp_all add: wf_entry_def)
        define b4 where "b4 = overlay b3 (off + 24) (uint16_le (of_nat (length (e_data e))))"
        have o32: "off + 32 + length (e_data e) \<le> length b" using nd(3) str by simp
        have l4: "length b4 = length b" using o32 by (simp add: b4_def l3)
        have "entry_body b off e = overlay b4 (off + 32) (e_data e)"
          using str by (simp add: entry_body_def b3' b1' b4_def)
        moreover have "length (overlay b4 (off + 32) (e_data e)) = length b"
          using o32 by (simp add: l4)
        ultimately show ?thesis
          unfolding step1 off_def[symmetric] using str fits o32 o24
          by (simp add: setUint16_def setUint32_def set_bytes_eq l3 l4 b4_def[symmetric]
              write_chunks_closed[OF _ sp] entry_written_def Let_def)
      qed
    qed
  qed
qed

lemma finalizePage_closed:
  "finalizePage b p n =
     (if p * PAGE_SIZE + 32 \<le> length b then Inr (header_written b p) else Inl RangeError)"
proof (cases "p * PAGE_SIZE + 32 \<le> length b")
  case True
  then show ?thesis
    by (simp add: finalizePage_def header_written_def setUint32_def set_bytes_eq Let_def)
next
  case False
  then show ?thesis
    by (simp add: finalizePage_def setUint32_def set_bytes_eq Let_def)
qed

lemma length_slice: "e \<le> length a \<Longrightarrow> length (slice a s e) = e - s"
  by (simp add: slice_def)

lemma nth_slice: "e \<le> length a \<Longrightarrow> j < e - s \<Longrightarrow> slice a s e ! j = a ! (s + j)"
  by (simp add: slice_def)

lemma slice_cong:
  assumes "length b' = length b" and "\<And>k. s \<le> k \<Longrightarrow> k < e \<Longrightarrow> b' ! k = b ! k"
  shows "slice b' s e = slice b s e"
proof (rule nth_equalityI)
  show len: "length (slice b' s e) = length (slice b s e)"
    using assms(1) by (simp add: slice_def)
  fix j assume "j < length (slice b' s e)"
  then have j: "j < e - s" "s + j < length b" using assms(1) by (auto simp: slice_def)
  then show "slice b' s e ! j = slice b s e ! j"
    using assms by (simp add: slice_def)
qed

lemma slice_overlay_hit:
  assumes "off + length src \<le> length b" and "t = off + length src"
  shows "slice (overlay b off src) off t = src"
  using assms by (simp add: slice_def overlay_def)

lemma slice_overlay_miss:
  assumes "off + length src \<le> length b" and "e \<le> off \<or> off + length src \<le> s"
  shows "slice (overlay b off src) s e = slice b s e"
  using assms by (intro slice_cong) (auto simp: nth_overlay)

lemma slot_holds_cong:
  assumes "slot_holds b off e" and "length b' = length b"
    and "\<And>k. off \<le> k \<Longrightarrow> k < off + 32 \<Longrightarrow> b' ! k = b ! k"
  shows "slot_holds b' off e"
proof -
  have sl: "slice b' s t = slice b s t" if "off \<le> s" "t \<le> off + 32" for s t
    using assms(2,3) that by (intro slice_cong) auto
  show ?thesis
    using assms(1) assms(2) assms(3)[of off] assms(3)[of "off + 1"] assms(3)[of "off + 2"] assms(3)[of "off + 3"]
    unfolding slot_holds_def
    by (simp add: sl)
qed

lemma length_entry_body:
  assumes "wf_entry e" and "off + entry_need e \<le> length b"
  shows "length (entry_body b off e) = length b"
  using entry_needD[OF assms(2)] by (auto simp: entry_body_def Let_def)

lemma length_entry_written:
  assumes "wf_entry e" and "off + entry_need e \<le> length b"
  shows "length (entry_written b off e) = length b"
  using assms entry_needD(2)[OF assms(2)]
  by (simp add: entry_written_def Let_def length_entry_body)

lemma slice_overlay_prefix:
  assumes "off + length src \<le> length b" and "t \<le> off + length src"
  shows "slice (overlay b off src) off t = take (t - off) src"
  using assms by (simp add: slice_def overlay_def)

lemma crc_window_eq:
  assumes "off + 32 \<le> length c"
  shows "crc_window c off = slice c off (off + 4) @ slice c (off + 8) (off + 32)"
proof -
  have a: "[rd c off, rd c (off + 1), rd c (off + 2), rd c (off + 3)] = slice c off (off + 4)"
  proof (rule nth_equalityI)
    show "length [rd c off, rd c (off + 1), rd c (off + 2), rd c (off + 3)] = length (slice c off (off + 4))"
      using assms by (simp add: slice_def)
    fix j assume "j < length [rd c off, rd c (off + 1), rd c (off + 2), rd c (off + 3)]"
    then consider "j = 0" | "j = 1" | "j = 2" | "j = 3" by fastforce
    then show "[rd c off, rd c (off + 1), rd c (off + 2), rd c (off + 3)] ! j = slice c off (off + 4) ! j"
      using assms by cases (simp_all add: slice_def rd_def)
  qed
  have b: "pad_zero 16 (slice c (off + 8) (off + 24)) = slice c (off + 8) (off + 24)"
    using assms by (simp add: pad_zero_def slice_def)
  have d: "pad_zero 8 (slice c (off + 24) (off + 32)) = slice c (off + 24) (off + 32)"
    using assms by (simp add: pad_zero_def slice_def)
  have e: "slice c (off + 8) (off + 24) @ slice c (off + 24) (off + 32) = slice c (off + 8) (off + 32)"
    using assms by (intro nth_equalityI) (auto simp: slice_def nth_append add.assoc)
  show ?thesis
    unfolding crc_window_def a b d using e by simp
qed

lemma nth_entry_body_outside:
  assumes "wf_entry e" and "off + entry_need e \<le> length b"
    and "k < off \<or> off + entry_reach e \<le> k"
  shows "entry_body b off e ! k = b ! k"
proof -
  note nd = entry_needD[OF assms(2)]
  have kk: "k < off \<or> off + 8 + length (key_field (e_key e)) \<le> k"
    and ks: "k < off \<or> off + 32 * e_span e \<le> k"
    using assms(3) by (auto simp: entry_reach_def)
  show ?thesis
  proof (cases "e_type e = TYPE_STR \<or> e_type e = TYPE_BLOB")
    case True
    then have "length (e_data e) \<le> 32 * e_span e - 32"
      using assms(1) ceil32_bounds(1)[of "length (e_data e)"] by (simp add: wf_entry_def)
    moreover have "2 \<le> e_span e"
      using True assms(1) ceil32_pos[of "length (e_data e)"] by (simp add: wf_entry_def)
    ultimately have k: "k < off \<or> off + 32 + length (e_data e) \<le> k"
      using ks by auto
    show ?thesis
      using True k kk nd(1,2) nd(3)[OF True] by (auto simp: entry_body_def Let_def nth_overlay)
  next
    case False
    then have k: "k < off \<or> off + 32 \<le> k" and d: "length (e_data e) \<le> 8"
      using assms(1) ks by (auto simp: wf_entry_def)
    show ?thesis
      using False k kk d nd(1,2) nd(4)[OF False] by (auto simp: entry_body_def Let_def nth_overlay)
  qed
qed

lemma nth_entry_written_outside:
  assumes "wf_entry e" and "off + entry_need e \<le> length b"
    and "k < off \<or> off + entry_reach e \<le> k"
  shows "entry_written b off e ! k = b ! k"
proof -
  have "1 \<le> e_span e" using assms(1) by (auto simp: wf_entry_def split: if_splits)
  then have "k < off + 4 \<or> off + 8 \<le> k" using assms(3) by (auto simp: entry_reach_def)
  moreover have "off + 8 \<le> length b" using entry_needD(2)[OF assms(2)] by simp
  ultimately have "entry_written b off e ! k = entry_body b off e ! k"
    using assms(1,2) by (auto simp: entry_written_def Let_def nth_overlay length_entry_body)
  then show ?thesis using assms by (simp add: nth_entry_body_outside)
qed

lemma entry_body_fields:
  assumes wf: "wf_entry e" and fits: "off + entry_need e \<le> length b"
  defines "c \<equiv> entry_body b off e"
  shows "c ! off = of_nat (e_namespace e)" "c ! (off + 1) = e_type e"
    "c ! (off + 2) = of_nat (e_span e)" "c ! (off + 3) = 0xFF"
    "slice c (off + 8) (off + 24) = take 16 (key_field (e_key e))"
    "e_type e = TYPE_STR \<or> e_type e = TYPE_BLOB \<Longrightarrow>
       slice c (off + 24) (off + 26) = uint16_le (of_nat (length (e_data e)))"
    "e_type e = TYPE_STR \<or> e_type e = TYPE_BLOB \<Longrightarrow>
       slice c (off + 32) (off + 32 + length (e_data e)) = e_data e"
    "\<not> (e_type e = TYPE_STR \<or> e_type e = TYPE_BLOB) \<Longrightarrow>
       slice c (off + 24) (off + 24 + length (e_data e)) = e_data e"
proof -
  let ?h = "[of_nat (e_namespace e), e_type e, of_nat (e_span e), 0xFF] :: byte list"
  define c1 where "c1 = overlay b off ?h"
  define c2 where "c2 = overlay c1 (off + 8) (key_field (e_key e))"
  note nd = entry_needD[OF fits]
  have o24: "off + 24 \<le> length b" by (rule nd(2))
  have l1: "length c1 = length b" using o24 by (simp add: c1_def)
  have l2: "length c2 = length b" using nd(1) by (simp add: c2_def l1)
  have h: "c1 ! off = of_nat (e_namespace e)" "c1 ! (off + 1) = e_type e"
    "c1 ! (off + 2) = of_nat (e_span e)" "c1 ! (off + 3) = 0xFF"
    using o24 by (simp_all add: c1_def nth_overlay)
  have h2: "c2 ! off = of_nat (e_namespace e)" "c2 ! (off + 1) = e_type e"
    "c2 ! (off + 2) = of_nat (e_span e)" "c2 ! (off + 3) = 0xFF"
    using nd(1) h by (simp_all add: c2_def nth_overlay l1)
  have "slice c2 (off + 8) (off + 24) = take (off + 24 - (off + 8)) (key_field (e_key e))"
    unfolding c2_def using nd(1) by (intro slice_overlay_prefix) (simp_all add: l1)
  then have k2: "slice c2 (off + 8) (off + 24) = take 16 (key_field (e_key e))" by simp
  show "c ! off = of_nat (e_namespace e)" "c ! (off + 1) = e_type e"
    "c ! (off + 2) = of_nat (e_span e)" "c ! (off + 3) = 0xFF"
    using h2 nd(3,4) unfolding c_def entry_body_def Let_def c1_def[symmetric] c2_def[symmetric]
    by (auto simp: nth_overlay l2)
  show "slice c (off + 8) (off + 24) = take 16 (key_field (e_key e))"
    using k2 nd(3,4) unfolding c_def entry_body_def Let_def c1_def[symmetric] c2_def[symmetric]
    by (auto simp: slice_overlay_miss l2)
  show "slice c (off + 24) (off + 26) = uint16_le (of_nat (length (e_data e)))"
    if "e_type e = TYPE_STR \<or> e_type e = TYPE_BLOB"
  proof -
    have o: "off + 32 + length (e_data e) \<le> length b" using nd(3) that by simp
    let ?c3 = "overlay c2 (off + 24) (uint16_le (of_nat (length (e_data e))))"
    have "slice ?c3 (off + 24) (off + 26) = uint16_le (of_nat (length (e_data e)))"
      using o by (intro slice_overlay_hit) (simp_all add: l2)
    moreover have "slice (overlay ?c3 (off + 32) (e_data e)) (off + 24) (off + 26) = slice ?c3 (off + 24) (off + 26)"
      using o by (intro slice_overlay_miss) (simp_all add: l2)
    ultimately show ?thesis
      using that
      unfolding c_def entry_body_def Let_def c1_def[symmetric] c2_def[symmetric]
      by simp
  qed
  show "slice c (off + 32) (off + 32 + length (e_data e)) = e_data e"
    if "e_type e = TYPE_STR \<or> e_type e = TYPE_BLOB"
  proof -
    have o: "off + 32 + length (e_data e) \<le> length b" using nd(3) that by simp
    let ?c3 = "overlay c2 (off + 24) (uint16_le (of_nat (length (e_data e))))"
    have "slice (overlay ?c3 (off + 32) (e_data e)) (off + 32) (off + 32 + length (e_data e)) = e_data e"
      using o by (intro slice_overlay_hit) (simp_all add: l2)
    then show ?thesis
      using that
      unfolding c_def entry_body_def Let_def c1_def[symmetric] c2_def[symmetric]
      by simp
  qed
  show "slice c (off + 24) (off + 24 + length (e_data e)) = e_data e"
    if "\<not> (e_type e = TYPE_STR \<or> e_type e = TYPE_BLOB)"
  proof -
    have o: "off + 24 + length (e_data e) \<le> length b" using nd(4) that by simp
    have "slice (overlay c2 (off + 24) (e_data e)) (off + 24) (off + 24 + length (e_data e)) = e_data e"
      using o by (intro slice_overlay_hit) (simp_all add: l2)
    then show ?thesis
      using that
      unfolding c_def entry_body_def Let_def c1_def[symmetric] c2_def[symmetric]
      by simp
  qed
qed

lemma slot_holds_written:
  assumes wf: "wf_entry e" and fits: "off + entry_need e \<le> length b" and slot: "off + 32 \<le> length b"
  shows "slot_holds (entry_written b off e) off e"
proof -
  define c where "c = entry_body b off e"
  define crc where "crc = uint32_le (calculateCRC32 (crc_window c off))"
  define w where "w = overlay c (off + 4) crc"
  have lc: "length c = length b" by (simp add: c_def length_entry_body wf fits)
  have lw: "length w = length b" using slot by (simp add: w_def crc_def lc)
  have w: "entry_written b off e = w"
    by (simp add: entry_written_def c_def crc_def Let_def w_def)
  have miss: "slice w s t = slice c s t" if "t \<le> off + 4 \<or> off + 8 \<le> s" for s t
    unfolding w_def using that slot by (intro slice_overlay_miss) (auto simp: crc_def lc)
  have nmiss: "w ! k = c ! k" if "k < off + 4 \<or> off + 8 \<le> k" for k
    unfolding w_def using that slot by (auto simp: nth_overlay crc_def lc)
  have hit: "slice w (off + 4) (off + 8) = crc"
    unfolding w_def using slot by (intro slice_overlay_hit) (simp_all add: crc_def lc)
  have crcv: "crc = uint32_le (calculateCRC32 (slice w off (off + 4) @ slice w (off + 8) (off + 32)))"
    using slot by (simp add: crc_def crc_window_eq lc miss)
  have d8: "length (e_data e) \<le> 8" if "\<not> (e_type e = TYPE_STR \<or> e_type e = TYPE_BLOB)"
    using wf that by (simp add: wf_entry_def)
  note f = entry_body_fields[OF wf fits, folded c_def]
  have "off + 32 \<le> length w" using slot lw by simp
  moreover have "w ! off = of_nat (e_namespace e)" using f(1) by (simp add: nmiss)
  moreover have "w ! (off + 1) = e_type e" using f(2) by (simp add: nmiss)
  moreover have "w ! (off + 2) = of_nat (e_span e)" using f(3) by (simp add: nmiss)
  moreover have "w ! (off + 3) = 0xFF" using f(4) by (simp add: nmiss)
  moreover have "slice w (off + 8) (off + 24) = take 16 (key_field (e_key e))" using f(5) by (simp add: miss)
  moreover have "slice w (off + 24) (off + 26) = uint16_le (of_nat (length (e_data e)))"
    if "e_type e = TYPE_STR \<or> e_type e = TYPE_BLOB"
    using f(6)[OF that] by (simp add: miss)
  moreover have "slice w (off + 24) (off + 24 + length (e_data e)) = e_data e"
    if "\<not> (e_type e = TYPE_STR \<or> e_type e = TYPE_BLOB)"
    using f(8)[OF that] by (simp add: miss)
  moreover have "slice w (off + 4) (off + 8)
      = uint32_le (calculateCRC32 (slice w off (off + 4) @ slice w (off + 8) (off + 32)))"
    using hit crcv by simp
  ultimately show ?thesis
    unfolding slot_holds_def w using d8 by auto
qed

lemma createEntry_wf: "createEntry ns key v = Inr e \<Longrightarrow> wf_entry e"
  by (auto simp: createEntry_def entry_payload_def wf_entry_def bindE_eq_Inr uint16_le_def uint32_le_def
      split: jsvalue.splits if_splits)

lemma namespace_entry_wf [simp]: "wf_entry (namespace_entry name k)"
  by (simp add: namespace_entry_def wf_entry_def)

lemma namespace_entry_need: "entry_need (namespace_entry name k) = max (8 + length (key_field name)) 25"
  by (simp add: namespace_entry_def entry_need_def)

lemma length_header_written [simp]:
  "p * PAGE_SIZE + 32 \<le> length b \<Longrightarrow> length (header_written b p) = length b"
  by (simp add: header_written_def Let_def)

lemma length_write_bitmap [simp]: "length (write_bitmap b p) = length b"
  by (simp add: write_bitmap_def Let_def)

lemma entry_need_pos: "wf_entry e \<Longrightarrow> 24 \<le> entry_need e"
  using entry_needD(2)[of 0 e "entry_need e"] by simp

lemma entry_offset_page: "q * PAGE_SIZE + 32 \<le> entry_offset q j"
  by (simp add: entry_offset_def)

text \<open>The loops of generate and the cursor runs fail together and stop at the same cursor.\<close>

lemma gen_entries_run:
  "map_sum id (\<lambda>(b', c). (length b', c)) (gen_entries N ns kvs (b, p, i))
   = map_sum id (\<lambda>c. (length b, c)) (run_entries (length b) N ns kvs (p, i))"
proof (induction kvs arbitrary: b p i)
  case Nil
  show ?case by simp
next
  case (Cons kv kvs)
  obtain key v where kv: "kv = (key, v)" by (cases kv)
  show ?case
  proof (cases "createEntry ns key v")
    case (Inl err)
    then show ?thesis by (simp add: kv)
  next
    case (Inr e)
    then have wf: "wf_entry e" by (rule createEntry_wf)
    show ?thesis
    proof (cases "entry_offset p i + entry_need e \<le> length b")
      case False
      then show ?thesis using Inr wf by (simp add: kv writeEntry_wf)
    next
      case fits: True
      define b1 where "b1 = entry_written b (entry_offset p i) e"
      have l1: "length b1 = length b" by (simp add: b1_def length_entry_written wf fits)
      have hdr: "p * PAGE_SIZE + 32 \<le> length b"
        using fits entry_offset_page[of p i] by simp
      show ?thesis
      proof (cases "i + e_span e \<ge> ENTRIES_PER_PAGE")
        case False
        then show ?thesis
          using Inr wf fits Cons.IH[of b1 p "i + e_span e"]
          by (simp add: kv writeEntry_wf b1_def[symmetric] l1 Let_def)
      next
        case True
        then show ?thesis
          using Inr wf fits hdr Cons.IH[of "write_bitmap (header_written b1 p) (p + 1)" "p + 1" 1]
          by (simp add: kv writeEntry_wf b1_def[symmetric] l1 Let_def finalizePage_closed)
      qed
    qed
  qed
qed

lemma gen_namespaces_run:
  "map_sum id (\<lambda>(b', c). (length b', c)) (gen_namespaces N m dat (b, p, i))
   = map_sum id (\<lambda>c. (length b, c)) (run_namespaces (length b) N m dat (p, i))"
proof (induction dat arbitrary: b p i)
  case Nil
  show ?case by simp
next
  case (Cons nse dat)
  obtain name kvs where nse: "nse = (name, kvs)" by (cases nse)
  show ?case
  proof (cases "length kvs > 0")
    case False
    then show ?thesis using Cons.IH[of b p i] by (simp add: nse)
  next
    case nonempty: True
    let ?k = "ns_lookup m name"
    show ?thesis
    proof (cases "entry_offset p i + entry_need (namespace_entry name (ns_lookup m name)) \<le> length b")
      case False
      then show ?thesis using nonempty by (simp add: nse writeEntry_wf Let_def)
    next
      case fits: True
      define b1 where "b1 = entry_written b (entry_offset p i) (namespace_entry name ?k)"
      have l1: "length b1 = length b" by (simp add: b1_def length_entry_written fits)
      have step: "gen_namespaces N m (nse # dat) (b, p, i)
                  = bindE (gen_entries N ?k kvs (b1, p, i + 1)) (gen_namespaces N m dat)"
        using nonempty fits by (simp add: nse writeEntry_wf Let_def b1_def)
      have rstep: "run_namespaces (length b) N m (nse # dat) (p, i)
                  = bindE (run_entries (length b) N ?k kvs (p, i + 1)) (run_namespaces (length b) N m dat)"
        using nonempty fits by (simp add: nse)
      note ge = gen_entries_run[of N ?k kvs b1 p "i + 1", unfolded l1]
      show ?thesis
      proof (cases "gen_entries N ?k kvs (b1, p, i + 1)")
        case (Inl err)
        then have "run_entries (length b) N ?k kvs (p, i + 1) = Inl err"
          using ge by (cases "run_entries (length b) N ?k kvs (p, i + 1)") simp_all
        then show ?thesis unfolding step rstep using Inl by simp
      next
        case (Inr st)
        obtain b2 p2 i2 where st: "st = (b2, p2, i2)" by (cases st)
        have r: "run_entries (length b) N ?k kvs (p, i + 1) = Inr (p2, i2)" and l2: "length b2 = length b"
          using ge Inr st by (cases "run_entries (length b) N ?k kvs (p, i + 1)"; simp)+
        show ?thesis
          unfolding step rstep Inr r using Cons.IH[of b2 p2 i2] by (simp add: st l2)
      qed
    qed
  qed
qed

lemma generate_run:
  "map_sum id length (generate dat partitionSize)
   = map_sum id (\<lambda>c. partitionSize) (run_generate dat partitionSize)"
proof -
  let ?m = "build_namespaceMap dat 0 Map.empty"
  let ?N = "partitionSize div PAGE_SIZE"
  let ?b0 = "write_bitmap (replicate partitionSize 0xFF) 0"
  have l0: "length ?b0 = partitionSize" by simp
  note gn = gen_namespaces_run[of ?N ?m dat ?b0 0 1, unfolded l0]
  show ?thesis
  proof (cases "gen_namespaces ?N ?m dat (?b0, 0, 1)")
    case (Inl err)
    then have "run_namespaces partitionSize ?N ?m dat (0, 1) = Inl err"
      using gn by (cases "run_namespaces partitionSize ?N ?m dat (0, 1)") simp_all
    then show ?thesis using Inl by (simp add: generate_def run_generate_def Let_def)
  next
    case (Inr st)
    obtain b p i where st: "st = (b, p, i)" by (cases st)
    have r: "run_namespaces partitionSize ?N ?m dat (0, 1) = Inr (p, i)" and l: "length b = partitionSize"
      using gn Inr st by (cases "run_namespaces partitionSize ?N ?m dat (0, 1)"; simp)+
    show ?thesis
      using Inr r l by (simp add: generate_def run_generate_def Let_def st finalizePage_closed)
  qed
qed

lemma generate_Inr_iff:
  "(\<exists>b. generate dat partitionSize = Inr b) \<longleftrightarrow> (\<exists>c. run_generate dat partitionSize = Inr c)"
  using generate_run[of dat partitionSize]
  by (cases "generate dat partitionSize"; cases "run_generate dat partitionSize") simp_all

lemma generate_Inl_iff:
  "generate dat partitionSize = Inl err \<longleftrightarrow> run_generate dat partitionSize = Inl err"
  using generate_run[of dat partitionSize]
  by (cases "generate dat partitionSize"; cases "run_generate dat partitionSize") simp_all

lemma generate_length:
  "generate dat partitionSize = Inr b \<Longrightarrow> length b = partitionSize"
  using generate_run[of dat partitionSize]
  by (cases "run_generate dat partitionSize") simp_all

lemma gen_entries_ConsE:
  assumes "gen_entries N ns ((key, v) # rest) (b, p, i) = Inr st"
  obtains e where "createEntry ns key v = Inr e" "wf_entry e"
    "entry_offset p i + entry_need e \<le> length b"
    "i + e_span e \<ge> ENTRIES_PER_PAGE \<Longrightarrow> p + 1 < N"
    "gen_entries N ns rest (step_buffer b (p, i) e, advance (p, i) (e_span e)) = Inr st"
proof -
  from assms obtain e where e: "createEntry ns key v = Inr e"
    by (cases "createEntry ns key v") simp_all
  then have wf: "wf_entry e" by (rule createEntry_wf)
  have fits: "entry_offset p i + entry_need e \<le> length b"
    using assms e wf by (simp add: writeEntry_wf split: if_splits)
  have hdr: "p * PAGE_SIZE + 32 \<le> length b"
    using fits entry_offset_page[of p i] by simp
  have l1: "length (entry_written b (entry_offset p i) e) = length b"
    by (simp add: length_entry_written wf fits)
  have "(i + e_span e \<ge> ENTRIES_PER_PAGE \<longrightarrow> p + 1 < N) \<and>
        gen_entries N ns rest (step_buffer b (p, i) e, advance (p, i) (e_span e)) = Inr st"
    using assms e wf fits hdr l1
    by (auto simp: writeEntry_wf finalizePage_closed step_buffer_def Let_def split: if_splits)
  then show ?thesis using that e wf fits by blast
qed

lemma gen_namespaces_ConsE:
  assumes "gen_namespaces N m ((name, kvs) # rest) (b, p, i) = Inr st" and "kvs \<noteq> []"
  obtains st1 where "entry_offset p i + entry_need (namespace_entry name (ns_lookup m name)) \<le> length b"
    "gen_entries N (ns_lookup m name) kvs
       (entry_written b (entry_offset p i) (namespace_entry name (ns_lookup m name)), p, i + 1) = Inr st1"
    "gen_namespaces N m rest st1 = Inr st"
proof -
  have fits: "entry_offset p i + entry_need (namespace_entry name (ns_lookup m name)) \<le> length b"
    using assms by (simp add: writeEntry_wf Let_def split: if_splits)
  then obtain st1 where
    "gen_entries N (ns_lookup m name) kvs
       (entry_written b (entry_offset p i) (namespace_entry name (ns_lookup m name)), p, i + 1) = Inr st1"
    "gen_namespaces N m rest st1 = Inr st"
    using assms by (auto simp: writeEntry_wf Let_def bindE_eq_Inr)
  then show ?thesis using that fits by blast
qed

lemma nth_header_written_outside:
  assumes "q * PAGE_SIZE + 32 \<le> length b" and "k \<notin> header_bytes q"
  shows "header_written b q ! k = b ! k"
  using assms by (auto simp: header_written_def Let_def nth_overlay header_bytes_def)

lemma nth_write_bitmap_outside:
  assumes "k \<noteq> q * PAGE_SIZE + 32" and "k \<noteq> q * PAGE_SIZE + 33"
  shows "write_bitmap b q ! k = b ! k"
  using assms by (simp add: write_bitmap_def Let_def)

lemma length_step_buffer:
  assumes "wf_entry e" and "entry_offset p i + entry_need e \<le> length b"
  shows "length (step_buffer b (p, i) e) = length b"
proof -
  have "p * PAGE_SIZE + 32 \<le> length b" using assms(2) entry_offset_page[of p i] by simp
  then show ?thesis using assms by (simp add: step_buffer_def Let_def length_entry_written)
qed

lemma nth_step_buffer_outside:
  assumes "wf_entry e" and "entry_offset p i + entry_need e \<le> length b"
    and "k \<notin> reach_bytes (p, i, e)"
    and "i + e_span e \<ge> ENTRIES_PER_PAGE \<Longrightarrow> k \<notin> header_bytes p \<and> k \<notin> bitmap_bytes (p + 1)"
  shows "step_buffer b (p, i) e ! k = b ! k"
proof -
  let ?b1 = "entry_written b (entry_offset p i) e"
  have hdr: "p * PAGE_SIZE + 32 \<le> length ?b1"
    using assms(1,2) entry_offset_page[of p i] by (simp add: length_entry_written)
  have k1: "?b1 ! k = b ! k"
    using assms(1,2,3) by (intro nth_entry_written_outside) (auto simp: reach_bytes_def)
  show ?thesis
  proof (cases "i + e_span e \<ge> ENTRIES_PER_PAGE")
    case False
    then show ?thesis using k1 by (simp add: step_buffer_def Let_def)
  next
    case True
    then have "k \<notin> header_bytes p" "k \<noteq> (p + 1) * PAGE_SIZE + 32" "k \<noteq> (p + 1) * PAGE_SIZE + 33"
      using assms(4) by (auto simp: bitmap_bytes_def)
    then show ?thesis
      using True k1 hdr
      by (simp add: step_buffer_def Let_def nth_write_bitmap_outside nth_header_written_outside)
  qed
qed

lemma advance_page: "fst c \<le> fst (advance c n)" "fst (advance c n) \<le> fst c + 1"
  by (cases c; simp)+

lemma end_entries_page: "fst c \<le> fst (end_entries ns kvs c)"
proof (induction kvs arbitrary: c)
  case Nil
  show ?case by simp
next
  case (Cons kv kvs)
  obtain key v where kv: "kv = (key, v)" by (cases kv)
  show ?case
  proof (cases "createEntry ns key v")
    case (Inl err)
    then show ?thesis by (simp add: kv)
  next
    case (Inr e)
    then show ?thesis
      using Cons.IH[of "advance c (e_span e)"] advance_page(1)[of c "e_span e"]
      by (simp add: kv)
  qed
qed

text \<open>What the inner loop leaves: the length, the cursor, and every byte it does not store.\<close>

lemma gen_entries_untouched:
  assumes "gen_entries N ns kvs (b, p, i) = Inr (b', c')"
  shows "length b' = length b \<and> c' = end_entries ns kvs (p, i) \<and>
         (\<forall>k. k \<notin> (\<Union>x \<in> set (place_entries ns kvs (p, i)). reach_bytes x) \<longrightarrow>
              k \<notin> (\<Union>q \<in> {p ..< fst c'}. header_bytes q) \<longrightarrow>
              k \<notin> (\<Union>q \<in> {p <.. fst c'}. bitmap_bytes q) \<longrightarrow> b' ! k = b ! k)"
  using assms
proof (induction kvs arbitrary: b p i)
  case Nil
  then show ?case by simp
next
  case (Cons kv kvs)
  obtain key v where kv: "kv = (key, v)" by (cases kv)
  from Cons.prems obtain e where e: "createEntry ns key v = Inr e" and wf: "wf_entry e"
    and fits: "entry_offset p i + entry_need e \<le> length b"
    and rest: "gen_entries N ns kvs (step_buffer b (p, i) e, advance (p, i) (e_span e)) = Inr (b', c')"
    unfolding kv by (rule gen_entries_ConsE)
  obtain p1 i1 where c1: "advance (p, i) (e_span e) = (p1, i1)" by (cases "advance (p, i) (e_span e)")
  let ?b1 = "step_buffer b (p, i) e"
  note ih = Cons.IH[OF rest[unfolded c1]]
  have l1: "length ?b1 = length b" using wf fits by (rule length_step_buffer)
  have pl: "place_entries ns (kv # kvs) (p, i) = (p, i, e) # place_entries ns kvs (p1, i1)"
    using e c1 by (simp add: kv)
  have en: "end_entries ns (kv # kvs) (p, i) = end_entries ns kvs (p1, i1)"
    using e c1 by (simp add: kv)
  have p1: "p1 = (if i + e_span e \<ge> ENTRIES_PER_PAGE then p + 1 else p)"
    using c1 by (auto split: if_splits)
  have p1c: "p1 \<le> fst c'"
    using ih end_entries_page[of "(p1, i1)" ns kvs] by simp
  have "b' ! k = b ! k"
    if k1: "k \<notin> (\<Union>x \<in> set (place_entries ns (kv # kvs) (p, i)). reach_bytes x)"
    and k2: "k \<notin> (\<Union>q \<in> {p ..< fst c'}. header_bytes q)"
    and k3: "k \<notin> (\<Union>q \<in> {p <.. fst c'}. bitmap_bytes q)" for k
  proof -
    have "b' ! k = ?b1 ! k"
    proof -
      have "k \<notin> (\<Union>x \<in> set (place_entries ns kvs (p1, i1)). reach_bytes x)"
        using k1 pl by simp
      moreover have "k \<notin> (\<Union>q \<in> {p1 ..< fst c'}. header_bytes q)"
        using k2 p1 by (auto split: if_splits)
      moreover have "k \<notin> (\<Union>q \<in> {p1 <.. fst c'}. bitmap_bytes q)"
        using k3 p1 by (auto split: if_splits)
      ultimately show ?thesis using ih by blast
    qed
    also have "?b1 ! k = b ! k"
    proof (rule nth_step_buffer_outside[OF wf fits])
      show "k \<notin> reach_bytes (p, i, e)" using k1 pl by simp
      show "k \<notin> header_bytes p \<and> k \<notin> bitmap_bytes (p + 1)" if "i + e_span e \<ge> ENTRIES_PER_PAGE"
      proof -
        have "p1 = p + 1" using that p1 by simp
        then have "p \<in> {p ..< fst c'}" "p + 1 \<in> {p <.. fst c'}" using p1c by auto
        then show ?thesis using k2 k3 by blast
      qed
    qed
    finally show ?thesis .
  qed
  then show ?case using ih l1 en by simp
qed

lemma end_namespaces_page: "fst c \<le> fst (end_namespaces m dat c)"
proof (induction dat arbitrary: c)
  case Nil
  show ?case by simp
next
  case (Cons nse dat)
  obtain name kvs where nse: "nse = (name, kvs)" by (cases nse)
  show ?case
    using Cons.IH[of c] Cons.IH[of "end_entries (ns_lookup m name) kvs (fst c, snd c + 1)"]
      end_entries_page[of "(fst c, snd c + 1)" "ns_lookup m name" kvs]
    by (auto simp: nse)
qed

lemma gen_namespaces_untouched:
  assumes "gen_namespaces N m dat (b, p, i) = Inr (b', c')"
  shows "length b' = length b \<and> c' = end_namespaces m dat (p, i) \<and>
         (\<forall>k. k \<notin> (\<Union>x \<in> set (place_namespaces m dat (p, i)). reach_bytes x) \<longrightarrow>
              k \<notin> (\<Union>q \<in> {p ..< fst c'}. header_bytes q) \<longrightarrow>
              k \<notin> (\<Union>q \<in> {p <.. fst c'}. bitmap_bytes q) \<longrightarrow> b' ! k = b ! k)"
  using assms
proof (induction dat arbitrary: b p i)
  case Nil
  then show ?case by simp
next
  case (Cons nse dat)
  obtain name kvs where nse: "nse = (name, kvs)" by (cases nse)
  show ?case
  proof (cases "kvs = []")
    case True
    then show ?thesis using Cons.prems Cons.IH[of b p i] by (simp add: nse)
  next
    case False
    let ?n = "ns_lookup m name"
    let ?e = "namespace_entry name ?n"
    let ?b1 = "entry_written b (entry_offset p i) ?e"
    from Cons.prems False obtain st1 where fits: "entry_offset p i + entry_need (namespace_entry name (ns_lookup m name)) \<le> length b"
      and ents: "gen_entries N ?n kvs (?b1, p, i + 1) = Inr st1"
      and rest: "gen_namespaces N m dat st1 = Inr (b', c')"
      unfolding nse by (rule gen_namespaces_ConsE)
    obtain b2 p2 i2 where st1: "st1 = (b2, p2, i2)" by (cases st1)
    note e1 = gen_entries_untouched[OF ents[unfolded st1]]
    note ih = Cons.IH[OF rest[unfolded st1]]
    have l1: "length ?b1 = length b" using fits by (simp add: length_entry_written)
    have c2: "(p2, i2) = end_entries ?n kvs (p, i + 1)" using e1 by simp
    have pp2: "p \<le> p2" using c2 end_entries_page[of "(p, i + 1)" ?n kvs] by (metis fst_conv)
    have p2c: "p2 \<le> fst c'" using ih end_namespaces_page[of "(p2, i2)" m dat] by simp
    have pl: "place_namespaces m (nse # dat) (p, i)
              = (p, i, ?e) # place_entries ?n kvs (p, i + 1) @ place_namespaces m dat (p2, i2)"
      using False c2 by (simp add: nse)
    have en: "end_namespaces m (nse # dat) (p, i) = end_namespaces m dat (p2, i2)"
      using False c2 by (simp add: nse)
    have "b' ! k = b ! k"
      if k1: "k \<notin> (\<Union>x \<in> set (place_namespaces m (nse # dat) (p, i)). reach_bytes x)"
      and k2: "k \<notin> (\<Union>q \<in> {p ..< fst c'}. header_bytes q)"
      and k3: "k \<notin> (\<Union>q \<in> {p <.. fst c'}. bitmap_bytes q)" for k
    proof -
      have "b' ! k = b2 ! k"
      proof -
        have "k \<notin> (\<Union>x \<in> set (place_namespaces m dat (p2, i2)). reach_bytes x)"
          using k1 pl by simp
        moreover have "k \<notin> (\<Union>q \<in> {p2 ..< fst c'}. header_bytes q)"
          using k2 pp2 by auto
        moreover have "k \<notin> (\<Union>q \<in> {p2 <.. fst c'}. bitmap_bytes q)"
          using k3 pp2 by auto
        ultimately show ?thesis using ih by blast
      qed
      also have "b2 ! k = ?b1 ! k"
      proof -
        have "k \<notin> (\<Union>x \<in> set (place_entries ?n kvs (p, i + 1)). reach_bytes x)"
          using k1 pl by simp
        moreover have "k \<notin> (\<Union>q \<in> {p ..< p2}. header_bytes q)"
          using k2 p2c by auto
        moreover have "k \<notin> (\<Union>q \<in> {p <.. p2}. bitmap_bytes q)"
          using k3 p2c by auto
        ultimately show ?thesis using e1 by simp
      qed
      also have "?b1 ! k = b ! k"
      proof (rule nth_entry_written_outside)
        show "wf_entry ?e" by simp
        show "entry_offset p i + entry_need ?e \<le> length b" using fits by simp
        show "k < entry_offset p i \<or> entry_offset p i + entry_reach ?e \<le> k"
          using k1 pl by (auto simp: reach_bytes_def)
      qed
      finally show ?thesis .
    qed
    then show ?thesis using ih e1 l1 en by simp
  qed
qed

text \<open>Outside the page headers, the bitmap slots and the spans of the entries the image is erased.\<close>

lemma generate_untouched:
  assumes "generate dat partitionSize = Inr b" and "k < partitionSize" and "k \<notin> touched dat"
  shows "b ! k = 0xFF"
proof -
  let ?m = "build_namespaceMap dat 0 Map.empty"
  let ?N = "partitionSize div PAGE_SIZE"
  let ?b0 = "write_bitmap (replicate partitionSize 0xFF) 0"
  from assms(1) obtain st where gn0: "gen_namespaces ?N ?m dat (?b0, 0, 1) = Inr st"
    and fin0: "(case st of (b, pageIndex, entryIndex) \<Rightarrow>
                 if entryIndex > 0 then finalizePage b pageIndex entryIndex else Inr b) = Inr b"
    unfolding generate_def Let_def bindE_eq_Inr by blast
  obtain b1 c where st: "st = (b1, c)" by (cases st)
  have gn: "gen_namespaces ?N ?m dat (?b0, 0, 1) = Inr (b1, c)" using gn0 st by simp
  have fin: "(if snd c > 0 then finalizePage b1 (fst c) (snd c) else Inr b1) = Inr b"
    using fin0 st by (cases c) (auto split: if_splits)
  note u = gen_namespaces_untouched[OF gn]
  have c: "c = last_cursor dat" using u by (simp add: last_cursor_def)
  have k1: "k \<notin> (\<Union>x \<in> set (place_namespaces ?m dat (0, 1)). reach_bytes x)"
    using assms(3) by (simp add: touched_def placements_def)
  have k2: "k \<notin> header_bytes q" "k \<notin> bitmap_bytes q" if "q \<le> fst c" for q
    using assms(3) that c by (auto simp: touched_def)
  have "b ! k = b1 ! k"
  proof (cases "snd c > 0")
    case False
    then show ?thesis using fin by simp
  next
    case True
    then show ?thesis
      using fin k2(1)[of "fst c"]
      by (auto simp: finalizePage_closed nth_header_written_outside split: if_splits)
  qed
  also have "b1 ! k = ?b0 ! k"
    using u k1 k2 by auto
  also have "?b0 ! k = replicate partitionSize 0xFF ! k"
    using k2(2)[of 0] by (intro nth_write_bitmap_outside) (auto simp: bitmap_bytes_def)
  finally show ?thesis using assms(2) by simp
qed

lemma wf_entry_span: "wf_entry e \<Longrightarrow> 1 \<le> e_span e"
  by (auto simp: wf_entry_def split: if_splits)

lemma advance_ok:
  assumes "cur_ok c" and "1 \<le> n"
  shows "cur_ok (advance c n)" "snd (advance c n) \<le> 125" "cur_off c + 32 \<le> cur_off (advance c n)"
  using assms by (cases c; auto simp: cur_ok_def cur_off_def entry_offset_def)+

lemma end_entries_ok:
  assumes "cur_ok c"
  shows "cur_ok (end_entries ns kvs c) \<and> cur_off c \<le> cur_off (end_entries ns kvs c)
         \<and> (snd c \<le> 125 \<longrightarrow> snd (end_entries ns kvs c) \<le> 125)"
  using assms
proof (induction kvs arbitrary: c)
  case Nil
  then show ?case by simp
next
  case (Cons kv kvs)
  obtain key v where kv: "kv = (key, v)" by (cases kv)
  show ?case
  proof (cases "createEntry ns key v")
    case (Inl err)
    then show ?thesis using Cons.prems by (simp add: kv)
  next
    case (Inr e)
    then have sp: "1 \<le> e_span e" using createEntry_wf wf_entry_span by blast
    note a = advance_ok[OF Cons.prems sp]
    show ?thesis
      using Inr Cons.IH[OF a(1)] a(2,3) by (simp add: kv)
  qed
qed

lemma place_entries_ok:
  assumes "cur_ok c" and "(q, j, e) \<in> set (place_entries ns kvs c)"
  shows "wf_entry e \<and> cur_ok (q, j) \<and> cur_off c \<le> cur_off (q, j)"
  using assms
proof (induction kvs arbitrary: c)
  case Nil
  then show ?case by simp
next
  case (Cons kv kvs)
  obtain key v where kv: "kv = (key, v)" by (cases kv)
  show ?case
  proof (cases "createEntry ns key v")
    case (Inl err)
    then show ?thesis using Cons.prems by (simp add: kv)
  next
    case (Inr e')
    then have wf: "wf_entry e'" by (rule createEntry_wf)
    note a = advance_ok[OF Cons.prems(1) wf_entry_span[OF wf]]
    from Cons.prems(2) Inr consider "(q, j, e) = (fst c, snd c, e')"
      | "(q, j, e) \<in> set (place_entries ns kvs (advance c (e_span e')))"
      by (auto simp: kv)
    then show ?thesis
    proof cases
      case 1
      then show ?thesis using wf Cons.prems(1) by (simp add: cur_ok_def cur_off_def)
    next
      case 2
      then show ?thesis using Cons.IH[OF a(1) 2] a(3) by simp
    qed
  qed
qed

text \<open>A slot from index 1 on meets no page header and no bitmap slot.\<close>

lemma slot_not_header:
  assumes "cur_ok (p, i)" and "entry_offset p i \<le> k" and "k < entry_offset p i + 32"
  shows "k \<notin> header_bytes q" "k \<notin> bitmap_bytes q"
proof -
  have "p * PAGE_SIZE + 64 \<le> k" "k < (p + 1) * PAGE_SIZE"
    using assms by (auto simp: cur_ok_def entry_offset_def)
  then have "q \<le> p \<Longrightarrow> q * PAGE_SIZE + 64 \<le> k" "p < q \<Longrightarrow> k < q * PAGE_SIZE"
    by (auto intro: order_trans[OF _ \<open>p * PAGE_SIZE + 64 \<le> k\<close>] dest: Suc_leI
        simp: less_le_trans[OF \<open>k < (p + 1) * PAGE_SIZE\<close>])
  then show "k \<notin> header_bytes q" "k \<notin> bitmap_bytes q"
    by (cases "q \<le> p"; force simp: header_bytes_def bitmap_bytes_def)+
qed

lemma slot_in_range:
  assumes "32 dvd L" and "entry_offset p i < L"
  shows "entry_offset p i + 32 \<le> L"
proof -
  from assms(1) obtain m where m: "L = 32 * m" by (elim dvdE)
  define n where "n = p * 128 + 1 + i"
  have eq: "entry_offset p i = 32 * n" by (simp add: entry_offset_def n_def)
  then have "n < m" using assms(2) m by simp
  then have "32 * (n + 1) \<le> 32 * m" by simp
  then show ?thesis unfolding eq m by simp
qed

lemma nth_step_buffer_entry:
  assumes "wf_entry e" and "entry_offset p i + entry_need e \<le> length b"
    and "k \<notin> header_bytes p" and "k \<notin> bitmap_bytes (p + 1)"
  shows "step_buffer b (p, i) e ! k = entry_written b (entry_offset p i) e ! k"
proof -
  let ?b1 = "entry_written b (entry_offset p i) e"
  have hdr: "p * PAGE_SIZE + 32 \<le> length ?b1"
    using assms(1,2) entry_offset_page[of p i] by (simp add: length_entry_written)
  have "k \<noteq> (p + 1) * PAGE_SIZE + 32" "k \<noteq> (p + 1) * PAGE_SIZE + 33"
    using assms(4) by (auto simp: bitmap_bytes_def)
  then show ?thesis
    using hdr assms(3)
    by (simp add: step_buffer_def Let_def nth_write_bitmap_outside nth_header_written_outside)
qed

text \<open>Every entry of the inner loop is in its slot when the loop ends.\<close>

lemma gen_entries_slots:
  assumes "gen_entries N ns kvs (b, p, i) = Inr (b', c')" and "cur_ok (p, i)" and "32 dvd length b"
    and "(q, j, e) \<in> set (place_entries ns kvs (p, i))"
  shows "slot_holds b' (entry_offset q j) e"
  using assms
proof (induction kvs arbitrary: b p i)
  case Nil
  then show ?case by simp
next
  case (Cons kv kvs)
  obtain key v where kv: "kv = (key, v)" by (cases kv)
  from Cons.prems(1) obtain e1 where e1: "createEntry ns key v = Inr e1" and wf: "wf_entry e1"
    and fits: "entry_offset p i + entry_need e1 \<le> length b"
    and rest: "gen_entries N ns kvs (step_buffer b (p, i) e1, advance (p, i) (e_span e1)) = Inr (b', c')"
    unfolding kv by (rule gen_entries_ConsE)
  obtain p1 i1 where c1: "advance (p, i) (e_span e1) = (p1, i1)" by (cases "advance (p, i) (e_span e1)")
  let ?b1 = "step_buffer b (p, i) e1"
  let ?off = "entry_offset p i"
  have l1: "length ?b1 = length b" using wf fits by (rule length_step_buffer)
  note a = advance_ok[OF Cons.prems(2) wf_entry_span[OF wf], unfolded c1]
  note u = gen_entries_untouched[OF rest[unfolded c1]]
  from Cons.prems(4) e1 c1 consider "(q, j, e) = (p, i, e1)"
    | "(q, j, e) \<in> set (place_entries ns kvs (p1, i1))"
    by (auto simp: kv)
  then show ?case
  proof cases
    case 2
    show ?thesis
      using Cons.IH[OF rest[unfolded c1] a(1) _ 2] Cons.prems(3) l1 by simp
  next
    case 1
    have "?off < length b" using fits entry_need_pos[OF wf] by simp
    then have slot: "?off + 32 \<le> length b" using Cons.prems(3) by (intro slot_in_range)
    have w: "slot_holds (entry_written b ?off e1) ?off e1"
      using wf fits slot by (rule slot_holds_written)
    have same: "b' ! k = entry_written b ?off e1 ! k" if k: "?off \<le> k" "k < ?off + 32" for k
    proof -
      note nh = slot_not_header[OF Cons.prems(2) k]
      have "k \<notin> (\<Union>x \<in> set (place_entries ns kvs (p1, i1)). reach_bytes x)"
      proof
        assume "k \<in> (\<Union>x \<in> set (place_entries ns kvs (p1, i1)). reach_bytes x)"
        then obtain q' j' e' where m: "(q', j', e') \<in> set (place_entries ns kvs (p1, i1))"
          and ks: "k \<in> reach_bytes (q', j', e')" by auto
        have "cur_off (p1, i1) \<le> cur_off (q', j')" using place_entries_ok[OF a(1) m] by simp
        then have "?off + 32 \<le> entry_offset q' j'" using a(3) by (simp add: cur_off_def)
        then show False using ks k by (simp add: reach_bytes_def)
      qed
      then have "b' ! k = ?b1 ! k" using u nh by blast
      also have "?b1 ! k = entry_written b ?off e1 ! k"
        using wf fits nh by (intro nth_step_buffer_entry) auto
      finally show ?thesis .
    qed
    have "slot_holds b' ?off e1"
      using w _ same
    proof (rule slot_holds_cong)
      show "length b' = length (entry_written b ?off e1)"
        using u l1 wf fits by (simp add: length_entry_written)
    qed
    then show ?thesis using 1 by simp
  qed
qed

lemma createEntry_supported: "(\<exists>e. createEntry ns key v = Inr e) \<longleftrightarrow> supported v"
  by (cases v) (simp_all add: createEntry_def entry_payload_def supported_def Let_def)

lemma gen_entries_supported:
  assumes "gen_entries N ns kvs (b, p, i) = Inr st"
  shows "\<forall>(key, v) \<in> set kvs. supported v"
  using assms
proof (induction kvs arbitrary: b p i)
  case Nil
  then show ?case by simp
next
  case (Cons kv kvs)
  obtain key v where kv: "kv = (key, v)" by (cases kv)
  from Cons.prems obtain e where e: "createEntry ns key v = Inr e"
    and rest: "gen_entries N ns kvs (step_buffer b (p, i) e, advance (p, i) (e_span e)) = Inr st"
    unfolding kv by (rule gen_entries_ConsE)
  obtain p1 i1 where c1: "advance (p, i) (e_span e) = (p1, i1)" by (cases "advance (p, i) (e_span e)")
  show ?case
    using Cons.IH[OF rest[unfolded c1]] e createEntry_supported[of ns key v] by (simp add: kv)
qed

lemma gen_namespaces_supported:
  assumes "gen_namespaces N m dat (b, p, i) = Inr st"
  shows "supported_data dat"
  using assms
proof (induction dat arbitrary: b p i)
  case Nil
  then show ?case by (simp add: supported_data_def)
next
  case (Cons nse dat)
  obtain name kvs where nse: "nse = (name, kvs)" by (cases nse)
  show ?case
  proof (cases "kvs = []")
    case True
    then show ?thesis using Cons.prems Cons.IH[of b p i] by (simp add: nse supported_data_def)
  next
    case False
    from Cons.prems False obtain st1 where
      ents: "gen_entries N (ns_lookup m name) kvs
         (entry_written b (entry_offset p i) (namespace_entry name (ns_lookup m name)), p, i + 1) = Inr st1"
      and rest: "gen_namespaces N m dat st1 = Inr st"
      unfolding nse by (rule gen_namespaces_ConsE)
    obtain b2 p2 i2 where st1: "st1 = (b2, p2, i2)" by (cases st1)
    show ?thesis
      using gen_entries_supported[OF ents] Cons.IH[OF rest[unfolded st1]]
      by (simp add: nse supported_data_def)
  qed
qed

lemma generate_supported:
  assumes "generate dat partitionSize = Inr b"
  shows "supported_data dat"
proof -
  from assms obtain st where
    "gen_namespaces (partitionSize div PAGE_SIZE) (build_namespaceMap dat 0 Map.empty) dat
       (write_bitmap (replicate partitionSize 0xFF) 0, 0, 1) = Inr st"
    unfolding generate_def Let_def bindE_eq_Inr by blast
  then show ?thesis by (cases st) (auto dest: gen_namespaces_supported)
qed

lemma end_entries_nonempty:
  assumes "cur_ok c" and "kvs \<noteq> []" and "\<forall>(key, v) \<in> set kvs. supported v"
  shows "snd (end_entries ns kvs c) \<le> 125" "cur_off c + 32 \<le> cur_off (end_entries ns kvs c)"
proof -
  obtain key v rest where kvs: "kvs = (key, v) # rest" using assms(2) by (cases kvs) auto
  then obtain e where e: "createEntry ns key v = Inr e"
    using assms(3) createEntry_supported[of ns key v] by auto
  then have sp: "1 \<le> e_span e" using createEntry_wf wf_entry_span by blast
  note a = advance_ok[OF assms(1) sp]
  note r = end_entries_ok[OF a(1), of ns rest]
  show "snd (end_entries ns kvs c) \<le> 125" "cur_off c + 32 \<le> cur_off (end_entries ns kvs c)"
    using e a r by (simp_all add: kvs)
qed

lemma end_namespaces_ok:
  assumes "cur_ok c" and "snd c \<le> 125" and "supported_data dat"
  shows "cur_ok (end_namespaces m dat c) \<and> snd (end_namespaces m dat c) \<le> 125
         \<and> cur_off c \<le> cur_off (end_namespaces m dat c)"
  using assms
proof (induction dat arbitrary: c)
  case Nil
  then show ?case by simp
next
  case (Cons nse dat)
  obtain name kvs where nse: "nse = (name, kvs)" by (cases nse)
  have sd: "supported_data dat" using Cons.prems(3) by (simp add: supported_data_def)
  show ?case
  proof (cases "kvs = []")
    case True
    then show ?thesis using Cons.IH[OF Cons.prems(1,2) sd] by (simp add: nse)
  next
    case False
    let ?c1 = "(fst c, snd c + 1)"
    let ?c2 = "end_entries (ns_lookup m name) kvs ?c1"
    have ok1: "cur_ok ?c1" using Cons.prems(1,2) by (simp add: cur_ok_def)
    have sup: "\<forall>(key, v) \<in> set kvs. supported v"
      using Cons.prems(3) by (simp add: supported_data_def nse)
    note en = end_entries_nonempty[OF ok1 False sup, of "ns_lookup m name"]
    have ok2: "cur_ok ?c2" using end_entries_ok[OF ok1] by simp
    have "cur_off c \<le> cur_off ?c1" by (simp add: cur_off_def entry_offset_def)
    then show ?thesis
      using False Cons.IH[OF ok2 en(1) sd] en(2) by (simp add: nse)
  qed
qed

lemma place_namespaces_ok:
  assumes "cur_ok c" and "snd c \<le> 125" and "supported_data dat"
    and "(q, j, e) \<in> set (place_namespaces m dat c)"
  shows "wf_entry e \<and> cur_ok (q, j) \<and> cur_off c \<le> cur_off (q, j)"
  using assms
proof (induction dat arbitrary: c)
  case Nil
  then show ?case by simp
next
  case (Cons nse dat)
  obtain name kvs where nse: "nse = (name, kvs)" by (cases nse)
  have sd: "supported_data dat" using Cons.prems(3) by (simp add: supported_data_def)
  show ?case
  proof (cases "kvs = []")
    case True
    then show ?thesis using Cons.IH[OF Cons.prems(1,2) sd] Cons.prems(4) by (simp add: nse)
  next
    case False
    let ?n = "ns_lookup m name"
    let ?c1 = "(fst c, snd c + 1)"
    let ?c2 = "end_entries ?n kvs ?c1"
    have ok1: "cur_ok ?c1" using Cons.prems(1,2) by (simp add: cur_ok_def)
    have sup: "\<forall>(key, v) \<in> set kvs. supported v"
      using Cons.prems(3) by (simp add: supported_data_def nse)
    note en = end_entries_nonempty[OF ok1 False sup, of ?n]
    have ok2: "cur_ok ?c2" using end_entries_ok[OF ok1] by simp
    have c01: "cur_off c \<le> cur_off ?c1" by (simp add: cur_off_def entry_offset_def)
    from Cons.prems(4) False consider "(q, j, e) = (fst c, snd c, namespace_entry name ?n)"
      | "(q, j, e) \<in> set (place_entries ?n kvs ?c1)"
      | "(q, j, e) \<in> set (place_namespaces m dat ?c2)"
      by (auto simp: nse)
    then show ?thesis
    proof cases
      case 1
      then show ?thesis using Cons.prems(1) by (simp add: cur_ok_def cur_off_def)
    next
      case 2
      then show ?thesis using place_entries_ok[OF ok1 2] c01 by simp
    next
      case 3
      then show ?thesis using Cons.IH[OF ok2 en(1) sd 3] en(2) c01 by simp
    qed
  qed
qed

lemma place_entries_before_end:
  assumes "cur_ok c" and "(q, j, e) \<in> set (place_entries ns kvs c)"
  shows "cur_off (q, j) + 32 \<le> cur_off (end_entries ns kvs c)"
  using assms
proof (induction kvs arbitrary: c)
  case Nil
  then show ?case by simp
next
  case (Cons kv kvs)
  obtain key v where kv: "kv = (key, v)" by (cases kv)
  show ?case
  proof (cases "createEntry ns key v")
    case (Inl err)
    then show ?thesis using Cons.prems by (simp add: kv)
  next
    case (Inr e')
    then have wf: "wf_entry e'" by (rule createEntry_wf)
    note a = advance_ok[OF Cons.prems(1) wf_entry_span[OF wf]]
    note r = end_entries_ok[OF a(1), of ns kvs]
    from Cons.prems(2) Inr consider "(q, j, e) = (fst c, snd c, e')"
      | "(q, j, e) \<in> set (place_entries ns kvs (advance c (e_span e')))"
      by (auto simp: kv)
    then show ?thesis
    proof cases
      case 1
      then show ?thesis using Inr a(3) r by (simp add: kv cur_off_def)
    next
      case 2
      then show ?thesis using Cons.IH[OF a(1) 2] Inr by (simp add: kv)
    qed
  qed
qed

text \<open>A slot before the cursor is left as it is by the rest of the loops.\<close>

lemma gen_entries_keeps:
  assumes "gen_entries N ns kvs (b, p, i) = Inr (b', c')" and "cur_ok (p, i)"
    and "cur_ok (q, j)" and "cur_off (q, j) + 32 \<le> cur_off (p, i)"
    and "slot_holds b (entry_offset q j) e"
  shows "slot_holds b' (entry_offset q j) e"
proof -
  note u = gen_entries_untouched[OF assms(1)]
  have "b' ! k = b ! k" if k: "entry_offset q j \<le> k" "k < entry_offset q j + 32" for k
  proof -
    note nh = slot_not_header[OF assms(3) k]
    have "k \<notin> (\<Union>x \<in> set (place_entries ns kvs (p, i)). reach_bytes x)"
    proof
      assume "k \<in> (\<Union>x \<in> set (place_entries ns kvs (p, i)). reach_bytes x)"
      then obtain q' j' e' where m: "(q', j', e') \<in> set (place_entries ns kvs (p, i))"
        and ks: "k \<in> reach_bytes (q', j', e')" by auto
      have "cur_off (p, i) \<le> cur_off (q', j')" using place_entries_ok[OF assms(2) m] by simp
      then show False using ks k assms(4) by (simp add: reach_bytes_def cur_off_def)
    qed
    then show ?thesis using u nh by blast
  qed
  with assms(5) show ?thesis using u by (intro slot_holds_cong[of b _ e b']) auto
qed

lemma gen_namespaces_keeps:
  assumes "gen_namespaces N m dat (b, p, i) = Inr (b', c')" and "cur_ok (p, i)" and "i \<le> 125"
    and "cur_ok (q, j)" and "cur_off (q, j) + 32 \<le> cur_off (p, i)"
    and "slot_holds b (entry_offset q j) e"
  shows "slot_holds b' (entry_offset q j) e"
proof -
  note u = gen_namespaces_untouched[OF assms(1)]
  note sd = gen_namespaces_supported[OF assms(1)]
  have "b' ! k = b ! k" if k: "entry_offset q j \<le> k" "k < entry_offset q j + 32" for k
  proof -
    note nh = slot_not_header[OF assms(4) k]
    have "k \<notin> (\<Union>x \<in> set (place_namespaces m dat (p, i)). reach_bytes x)"
    proof
      assume "k \<in> (\<Union>x \<in> set (place_namespaces m dat (p, i)). reach_bytes x)"
      then obtain q' j' e' where m: "(q', j', e') \<in> set (place_namespaces m dat (p, i))"
        and ks: "k \<in> reach_bytes (q', j', e')" by auto
      have "cur_off (p, i) \<le> cur_off (q', j')"
        using place_namespaces_ok[OF assms(2) _ sd m] assms(3) by simp
      then show False using ks k assms(5) by (simp add: reach_bytes_def cur_off_def)
    qed
    then show ?thesis using u nh by blast
  qed
  with assms(6) show ?thesis using u by (intro slot_holds_cong[of b _ e b']) auto
qed

text \<open>Every entry of the loops is in its slot when they end.\<close>

lemma gen_namespaces_slots:
  assumes "gen_namespaces N m dat (b, p, i) = Inr (b', c')" and "cur_ok (p, i)" and "i \<le> 125"
    and "32 dvd length b" and "(q, j, e) \<in> set (place_namespaces m dat (p, i))"
  shows "slot_holds b' (entry_offset q j) e"
  using assms
proof (induction dat arbitrary: b p i)
  case Nil
  then show ?case by simp
next
  case (Cons nse dat)
  obtain name kvs where nse: "nse = (name, kvs)" by (cases nse)
  show ?case
  proof (cases "kvs = []")
    case True
    then show ?thesis using Cons.prems Cons.IH[of b p i] by (simp add: nse)
  next
    case False
    let ?n = "ns_lookup m name"
    let ?e = "namespace_entry name ?n"
    let ?off = "entry_offset p i"
    let ?b1 = "entry_written b ?off ?e"
    from Cons.prems(1) False obtain st1 where fits: "?off + entry_need ?e \<le> length b"
      and ents: "gen_entries N ?n kvs (?b1, p, i + 1) = Inr st1"
      and rest: "gen_namespaces N m dat st1 = Inr (b', c')"
      unfolding nse by (rule gen_namespaces_ConsE)
    obtain b2 p2 i2 where st1: "st1 = (b2, p2, i2)" by (cases st1)
    note ents = ents[unfolded st1] and rest = rest[unfolded st1]
    note e1 = gen_entries_untouched[OF ents]
    have l1: "length ?b1 = length b" using fits by (simp add: length_entry_written)
    have ok1: "cur_ok (p, i + 1)" using Cons.prems(2,3) by (simp add: cur_ok_def)
    have sup: "\<forall>(key, v) \<in> set kvs. supported v" using gen_entries_supported[OF ents] .
    have c2: "(p2, i2) = end_entries ?n kvs (p, i + 1)" using e1 by simp
    note en = end_entries_nonempty[OF ok1 False sup, of ?n, folded c2]
    have ok2: "cur_ok (p2, i2)" using end_entries_ok[OF ok1, of ?n kvs] c2 by simp
    from Cons.prems(5) False c2 consider "(q, j, e) = (p, i, ?e)"
      | "(q, j, e) \<in> set (place_entries ?n kvs (p, i + 1))"
      | "(q, j, e) \<in> set (place_namespaces m dat (p2, i2))"
      by (auto simp: nse)
    then show ?thesis
    proof cases
      case 1
      have "?off < length b" using entry_needD(2)[OF fits] by simp
      then have slot: "?off + 32 \<le> length b" using Cons.prems(4) by (intro slot_in_range)
      have "slot_holds ?b1 ?off ?e"
        using fits slot by (intro slot_holds_written) simp_all
      moreover have near: "cur_off (p, i) + 32 \<le> cur_off (p, i + 1)"
        by (simp add: cur_off_def entry_offset_def)
      ultimately have "slot_holds b2 ?off ?e"
        by (intro gen_entries_keeps[OF ents ok1 Cons.prems(2)])
      moreover have "i2 \<le> 125" using en(1) by simp
      moreover have "cur_off (p, i) + 32 \<le> cur_off (p2, i2)" using en(2) near by simp
      ultimately have "slot_holds b' ?off ?e"
        by (intro gen_namespaces_keeps[OF rest ok2 _ Cons.prems(2)])
      then show ?thesis using 1 by simp
    next
      case 2
      have "slot_holds b2 (entry_offset q j) e"
        using ents ok1 _ 2 by (rule gen_entries_slots) (simp add: l1 Cons.prems(4))
      moreover have "i2 \<le> 125" using en(1) by simp
      moreover have "cur_ok (q, j)" using place_entries_ok[OF ok1 2] by simp
      moreover have "cur_off (q, j) + 32 \<le> cur_off (p2, i2)"
        using place_entries_before_end[OF ok1 2] c2 by simp
      ultimately show ?thesis
        by (intro gen_namespaces_keeps[OF rest ok2])
    next
      case 3
      have "i2 \<le> 125" using en(1) by simp
      then show ?thesis
        using Cons.IH[OF rest ok2 _ _ 3] e1 l1 Cons.prems(4) by simp
    qed
  qed
qed

lemma generate_slots:
  assumes "generate dat partitionSize = Inr b" and "32 dvd partitionSize"
    and "(p, i, e) \<in> set (placements dat)"
  shows "slot_holds b (entry_offset p i) e"
proof -
  let ?m = "build_namespaceMap dat 0 Map.empty"
  let ?N = "partitionSize div PAGE_SIZE"
  let ?b0 = "write_bitmap (replicate partitionSize 0xFF) 0"
  from assms(1) obtain st where gn0: "gen_namespaces ?N ?m dat (?b0, 0, 1) = Inr st"
    and fin0: "(case st of (b, pageIndex, entryIndex) \<Rightarrow>
                 if entryIndex > 0 then finalizePage b pageIndex entryIndex else Inr b) = Inr b"
    unfolding generate_def Let_def bindE_eq_Inr by blast
  obtain b1 c where st: "st = (b1, c)" by (cases st)
  have gn: "gen_namespaces ?N ?m dat (?b0, 0, 1) = Inr (b1, c)" using gn0 st by simp
  have fin: "(if snd c > 0 then finalizePage b1 (fst c) (snd c) else Inr b1) = Inr b"
    using fin0 st by (cases c) (auto split: if_splits)
  have ok0: "cur_ok (0, 1)" by (simp add: cur_ok_def)
  have pl: "(p, i, e) \<in> set (place_namespaces ?m dat (0, 1))"
    using assms(3) by (simp add: placements_def)
  have s1: "slot_holds b1 (entry_offset p i) e"
    using gn ok0 _ _ pl by (rule gen_namespaces_slots) (simp_all add: assms(2))
  have okp: "cur_ok (p, i)"
    using place_namespaces_ok[OF ok0 _ gen_namespaces_supported[OF gn] pl] by simp
  show ?thesis
  proof (cases "snd c > 0")
    case False
    then show ?thesis using fin s1 by simp
  next
    case True
    then have hdr: "fst c * PAGE_SIZE + 32 \<le> length b1" and b: "b = header_written b1 (fst c)"
      using fin by (auto simp: finalizePage_closed split: if_splits)
    show ?thesis
      using s1
    proof (rule slot_holds_cong)
      show "length b = length b1" using hdr b by simp
      show "b ! k = b1 ! k" if "entry_offset p i \<le> k" "k < entry_offset p i + 32" for k
        unfolding b using hdr slot_not_header(1)[OF okp that]
        by (rule nth_header_written_outside)
    qed
  qed
qed

lemma crc_shift_bit: "crc_shift c = crc32_bit c"
proof (cases "bit c 0")
  case True
  then have "c AND 1 = 1" by (simp add: and_one_eq bit_0 odd_iff_mod_2_eq_one)
  then show ?thesis using True by (simp add: crc_shift_def crc32_bit_def)
next
  case False
  then have "c AND 1 = 0" by (simp add: and_one_eq bit_0 even_iff_mod_2_eq_zero)
  then show ?thesis using False by (simp add: crc_shift_def crc32_bit_def)
qed

lemma calculateCRC32_ieee: "calculateCRC32 bs = crc32_ieee bs"
proof -
  have "crc_shift = crc32_bit" by (rule ext) (rule crc_shift_bit)
  then have b: "crc_byte = (\<lambda>c d. (crc32_bit ^^ 8) (c XOR ucast d))"
    by (intro ext) (simp add: crc_byte_def)
  have m1: "(0xFFFFFFFF :: 32 word) = - 1" by simp
  show ?thesis
    unfolding calculateCRC32_def crc32_ieee_def foldl_conv_fold b m1 by simp
qed

lemma funpow8: "(f ^^ 8) x = f (f (f (f (f (f (f (f x)))))))"
  by (simp add: numeral_eq_Suc)

lemma crc32_check: "crc32_ieee (map of_char ''123456789'') = 0xCBF43926"
  unfolding calculateCRC32_ieee[symmetric]
  by (simp add: calculateCRC32_def crc_byte_def crc_shift_def funpow8)

lemma unat_low_byte: "unat (ucast (w :: 32 word) :: 8 word) = unat w mod 256"
  by (simp add: unsigned_ucast_eq take_bit_eq_mod)

lemma unat_low_byte16: "unat (ucast (w :: 16 word) :: 8 word) = unat w mod 256"
  by (simp add: unsigned_ucast_eq take_bit_eq_mod)

lemma unat_drop_byte32: "unat (ucast (drop_bit n (w :: 32 word)) :: 8 word) = unat w div 2 ^ n mod 256"
proof -
  have "unat (drop_bit n w) = unat w div 2 ^ n"
    unfolding unat_drop_bit_eq by (rule drop_bit_eq_div)
  then show ?thesis
    unfolding unat_low_byte by (rule arg_cong)
qed

lemma unat_drop_byte16: "unat (ucast (drop_bit n (w :: 16 word)) :: 8 word) = unat w div 2 ^ n mod 256"
proof -
  have "unat (drop_bit n w) = unat w div 2 ^ n"
    unfolding unat_drop_bit_eq by (rule drop_bit_eq_div)
  then show ?thesis
    unfolding unat_low_byte16 by (rule arg_cong)
qed

lemma le_value_uint32: "le_value (uint32_le w) = unat w"
proof -
  define x where "x = unat w"
  define y1 where "y1 = x div 256"
  define y2 where "y2 = y1 div 256"
  define y3 where "y3 = y2 div 256"
  have "x < 2 ^ 32" using unsigned_less[of w, where 'a=nat] by (simp add: x_def)
  then have "y1 < 16777216" by (simp add: y1_def div_less_iff_less_mult)
  then have "y2 < 65536" by (simp add: y2_def div_less_iff_less_mult)
  then have "y3 < 256" by (simp add: y3_def div_less_iff_less_mult)
  then have m3: "y3 mod 256 = y3" by simp
  have d2: "x div 2 ^ 16 = y2" by (simp add: y2_def y1_def div_mult2_eq)
  have d3: "x div 2 ^ 24 = y3" by (simp add: y3_def y2_def y1_def div_mult2_eq)
  have d1: "x div 2 ^ 8 = y1" by (simp add: y1_def)
  have "x = x mod 256 + 256 * y1" by (simp add: y1_def)
  also have "y1 = y1 mod 256 + 256 * y2" by (simp add: y2_def)
  also have "y2 = y2 mod 256 + 256 * y3" by (simp add: y3_def)
  finally have "x mod 256 + 256 * (y1 mod 256 + 256 * (y2 mod 256 + 256 * (y3 mod 256))) = x"
    by (simp add: m3)
  moreover have "le_value (uint32_le w)
      = x mod 256 + 256 * (y1 mod 256 + 256 * (y2 mod 256 + 256 * (y3 mod 256)))"
    unfolding le_value_def uint32_le_def foldr.simps o_apply
    unfolding unat_drop_byte32
    unfolding unat_low_byte x_def[symmetric] d1 d2 d3 by simp
  ultimately show ?thesis by (simp add: x_def)
qed

lemma le_value_uint16: "le_value (uint16_le w) = unat w"
proof -
  define x where "x = unat w"
  define y1 where "y1 = x div 256"
  have "x < 2 ^ 16" using unsigned_less[of w, where 'a=nat] by (simp add: x_def)
  then have "y1 < 256" by (simp add: y1_def div_less_iff_less_mult)
  then have m1: "y1 mod 256 = y1" by simp
  have d1: "x div 2 ^ 8 = y1" by (simp add: y1_def)
  have "x = x mod 256 + 256 * y1" by (simp add: y1_def)
  then have "x mod 256 + 256 * (y1 mod 256) = x" by (simp add: m1)
  moreover have "le_value (uint16_le w) = x mod 256 + 256 * (y1 mod 256)"
    unfolding le_value_def uint16_le_def foldr.simps o_apply
    unfolding unat_drop_byte16
    unfolding unat_low_byte16 x_def[symmetric] d1 by simp
  ultimately show ?thesis by (simp add: x_def)
qed

lemma unat_word_of_int32: "unat (word_of_int v :: 32 word) = nat (v mod 2 ^ 32)"
  by (simp add: unat_eq_nat_uint uint_word_of_int)

lemma createEntry_key:
  "createEntry ns key' v = map_sum id (\<lambda>e. e\<lparr>e_key := key'\<rparr>) (createEntry ns key v)"
  by (cases "entry_payload v") (auto simp: createEntry_def Let_def)

lemma writeEntry_rekey:
  assumes "take 15 (e_key e') = take 15 (e_key e)" and "e_namespace e' = e_namespace e"
    and "e_type e' = e_type e" and "e_span e' = e_span e" and "e_data e' = e_data e"
  shows "writeEntry b p i e' = writeEntry b p i e"
  unfolding writeEntry_def assms ..

lemma gen_entries_rekey:
  assumes "\<And>k. take 15 (f k) = take 15 k"
  shows "gen_entries N ns (map (\<lambda>(key, v). (f key, v)) kvs) st = gen_entries N ns kvs st"
proof (induction kvs arbitrary: st)
  case Nil
  show ?case by simp
next
  case (Cons kv kvs)
  obtain key v where kv: "kv = (key, v)" by (cases kv)
  obtain b p i where st: "st = (b, p, i)" by (cases st)
  show ?case
  proof (cases "createEntry ns key v")
    case (Inl err)
    then show ?thesis using createEntry_key[of ns "f key" v key] by (simp add: kv st)
  next
    case (Inr e)
    define e' where "e' = e\<lparr>e_key := f key\<rparr>"
    have ce': "createEntry ns (f key) v = Inr e'"
      using createEntry_key[of ns "f key" v key] Inr by (simp add: e'_def)
    have "e_key e = key"
      using Inr by (auto simp: createEntry_def bindE_def Let_def split: sum.splits prod.splits)
    then have we: "writeEntry b p i e' = writeEntry b p i e"
      using assms[of key] by (intro writeEntry_rekey) (simp_all add: e'_def)
    have sp: "e_span e' = e_span e" by (simp add: e'_def)
    have ih: "gen_entries N ns (map (\<lambda>(key, v). (f key, v)) kvs) = gen_entries N ns kvs"
      by (rule ext) (rule Cons.IH)
    show ?thesis
      unfolding kv st list.map prod.case gen_entries.simps ce' Inr bindE_simps we sp ih ..
  qed
qed

lemma build_namespaceMap_rekey:
  "build_namespaceMap (rekey f dat) n m = build_namespaceMap dat n m"
proof (induction dat arbitrary: n m)
  case Nil
  show ?case by (simp add: rekey_def)
next
  case (Cons nse dat)
  obtain name kvs where nse: "nse = (name, kvs)" by (cases nse)
  have "rekey f (nse # dat) = (name, map (\<lambda>(key, v). (f key, v)) kvs) # rekey f dat"
    by (simp add: rekey_def nse)
  then show ?case
    by (simp only: nse build_namespaceMap.simps length_map Cons.IH)
qed

lemma gen_namespaces_rekey:
  assumes "\<And>k. take 15 (f k) = take 15 k"
  shows "gen_namespaces N m (rekey f dat) st = gen_namespaces N m dat st"
proof (induction dat arbitrary: st)
  case Nil
  show ?case by (simp add: rekey_def)
next
  case (Cons nse dat)
  obtain name kvs where nse: "nse = (name, kvs)" by (cases nse)
  obtain b p i where st: "st = (b, p, i)" by (cases st)
  have "rekey f (nse # dat) = (name, map (\<lambda>(key, v). (f key, v)) kvs) # rekey f dat"
    by (simp add: rekey_def nse)
  moreover have "gen_namespaces N m (rekey f dat) = gen_namespaces N m dat"
    by (rule ext) (rule Cons.IH)
  ultimately show ?case
    by (simp add: nse st gen_entries_rekey[OF assms])
qed

lemma generate_rekey:
  assumes "\<And>k. take 15 (f k) = take 15 k"
  shows "generate (rekey f dat) partitionSize = generate dat partitionSize"
  by (simp add: generate_def build_namespaceMap_rekey gen_namespaces_rekey[OF assms])

text \<open>The encoding of ASCII text, and of text given character by character.\<close>

lemma utf8_char_ascii: "(of_char c :: nat) < 128 \<Longrightarrow> utf8_char c = [of_char c]"
  by (simp add: utf8_char_def)

lemma encode_ascii:
  "\<forall>c \<in> set s. (of_char c :: nat) < 128 \<Longrightarrow> TextEncoder_encode s = map of_char s"
  by (induction s) (simp_all add: TextEncoder_encode_def utf8_char_ascii)

lemma encode_Nil: "TextEncoder_encode [] = []"
  by (simp add: TextEncoder_encode_def)

lemma encode_Cons: "TextEncoder_encode (c # s) = utf8_char c @ TextEncoder_encode s"
  by (simp add: TextEncoder_encode_def)

lemma encode_replicate:
  "(of_char c :: nat) < 128 \<Longrightarrow> TextEncoder_encode (replicate n c) = replicate n (of_char c)"
  by (simp add: encode_ascii)

text \<open>The equations that evaluate the cursor run and the layout of a given input.\<close>

lemmas run_simps = run_generate_def ns_lookup_def createEntry_def entry_payload_def entry_need_def
  key_field_def pad_zero_def namespace_entry_def entry_offset_def encode_Nil encode_Cons
  encode_replicate utf8_char_def ceil32_def Let_def

lemmas layout_simps = covered_def span_bytes_def placements_def last_cursor_def header_bytes_def
  bitmap_bytes_def namespace_entry_def ns_lookup_def createEntry_def entry_payload_def
  entry_offset_def encode_Nil encode_Cons encode_replicate utf8_char_def ceil32_def Let_def

lemma slot_holdsD:
  assumes "slot_holds b off e"
  shows "off + 32 \<le> length b" "b ! off = of_nat (e_namespace e)" "b ! (off + 1) = e_type e"
    "b ! (off + 2) = of_nat (e_span e)" "b ! (off + 3) = 0xFF"
    "slice b (off + 8) (off + 24) = take 16 (key_field (e_key e))"
    "e_type e = TYPE_STR \<or> e_type e = TYPE_BLOB \<Longrightarrow>
       slice b (off + 24) (off + 26) = uint16_le (of_nat (length (e_data e)))"
    "\<not> (e_type e = TYPE_STR \<or> e_type e = TYPE_BLOB) \<Longrightarrow>
       slice b (off + 24) (off + 24 + length (e_data e)) = e_data e"
    "slice b (off + 4) (off + 8)
       = uint32_le (calculateCRC32 (slice b off (off + 4) @ slice b (off + 8) (off + 32)))"
  using assms by (simp_all add: slot_holds_def)

lemma le_value_length16: "le_value (uint16_le (of_nat n)) = n mod 65536"
  by (simp add: le_value_uint16 unat_of_nat)

lemma createEntry_type:
  "createEntry ns key v = Inr e \<Longrightarrow> e_type e \<in> {TYPE_U8, TYPE_U16, TYPE_U32, TYPE_STR}"
  by (auto simp: createEntry_def entry_payload_def Let_def split: jsvalue.splits if_splits)

lemma place_entries_created:
  assumes "(q, j, e) \<in> set (place_entries ns kvs c)"
  shows "\<exists>key v. (key, v) \<in> set kvs \<and> createEntry ns key v = Inr e"
  using assms
proof (induction kvs arbitrary: c)
  case Nil
  then show ?case by simp
next
  case (Cons kv kvs)
  obtain key v where kv: "kv = (key, v)" by (cases kv)
  show ?case
  proof (cases "createEntry ns key v")
    case (Inl err)
    then show ?thesis using Cons.prems by (simp add: kv)
  next
    case (Inr e')
    then show ?thesis
      using Cons.prems Cons.IH[of "advance c (e_span e')"] by (auto simp: kv)
  qed
qed

lemma place_namespaces_type:
  assumes "(q, j, e) \<in> set (place_namespaces m dat c)"
  shows "e_type e \<in> {TYPE_U8, TYPE_U16, TYPE_U32, TYPE_STR}"
  using assms
proof (induction dat arbitrary: c)
  case Nil
  then show ?case by simp
next
  case (Cons nse dat)
  obtain name kvs where nse: "nse = (name, kvs)" by (cases nse)
  show ?case
  proof (cases "kvs = []")
    case True
    then show ?thesis using Cons.prems Cons.IH[of c] by (simp add: nse)
  next
    case False
    let ?n = "ns_lookup m name"
    from Cons.prems False consider "e = namespace_entry name ?n"
      | "(q, j, e) \<in> set (place_entries ?n kvs (fst c, snd c + 1))"
      | "(q, j, e) \<in> set (place_namespaces m dat (end_entries ?n kvs (fst c, snd c + 1)))"
      by (auto simp: nse)
    then show ?thesis
    proof cases
      case 1
      then show ?thesis by (simp add: namespace_entry_def)
    next
      case 2
      then show ?thesis using place_entries_created[OF 2] createEntry_type by blast
    next
      case 3
      then show ?thesis by (rule Cons.IH)
    qed
  qed
qed

lemma place_entries_value:
  assumes "\<forall>(key, v) \<in> set kvs. supported v" and "(key, v) \<in> set kvs"
  shows "\<exists>q j e. (q, j, e) \<in> set (place_entries ns kvs c) \<and> createEntry ns key v = Inr e"
  using assms
proof (induction kvs arbitrary: c)
  case Nil
  then show ?case by simp
next
  case (Cons kv kvs)
  obtain key' v' where kv: "kv = (key', v')" by (cases kv)
  from Cons.prems(1) obtain e' where e': "createEntry ns key' v' = Inr e'"
    using createEntry_supported[of ns key' v'] by (auto simp: kv)
  show ?case
  proof (cases "(key, v) = (key', v')")
    case True
    then show ?thesis using e' by (auto simp: kv)
  next
    case False
    then have "(key, v) \<in> set kvs" using Cons.prems(2) by (auto simp: kv)
    then obtain q j e where "(q, j, e) \<in> set (place_entries ns kvs (advance c (e_span e')))"
      "createEntry ns key v = Inr e"
      using Cons.IH[of "advance c (e_span e')"] Cons.prems(1) by auto
    then show ?thesis using e' by (auto simp: kv)
  qed
qed

lemma place_namespaces_value:
  assumes "supported_data dat" and "(name, kvs) \<in> set dat" and "(key, v) \<in> set kvs"
  shows "\<exists>q j e ns. (q, j, e) \<in> set (place_namespaces m dat c) \<and> createEntry ns key v = Inr e"
  using assms
proof (induction dat arbitrary: c)
  case Nil
  then show ?case by simp
next
  case (Cons nse dat)
  obtain name' kvs' where nse: "nse = (name', kvs')" by (cases nse)
  have sd: "supported_data dat" using Cons.prems(1) by (simp add: supported_data_def)
  show ?case
  proof (cases "(name, kvs) = (name', kvs')")
    case True
    then have ne: "kvs' \<noteq> []" using Cons.prems(3) by auto
    have "\<forall>(key, v) \<in> set kvs'. supported v"
      using Cons.prems(1) by (simp add: supported_data_def nse)
    then obtain q j e where "(q, j, e) \<in> set (place_entries (ns_lookup m name') kvs' (fst c, snd c + 1))"
      "createEntry (ns_lookup m name') key v = Inr e"
      using place_entries_value[of kvs' key v "ns_lookup m name'" "(fst c, snd c + 1)"] True Cons.prems(3)
      by auto
    then show ?thesis using ne by (auto simp: nse)
  next
    case False
    then have "(name, kvs) \<in> set dat" using Cons.prems(2) by (auto simp: nse)
    note ih = Cons.IH[OF sd this Cons.prems(3)]
    show ?thesis
    proof (cases "kvs' = []")
      case True
      then show ?thesis using ih[of c] by (simp add: nse)
    next
      case False
      obtain q j e ns where
        "(q, j, e) \<in> set (place_namespaces m dat (end_entries (ns_lookup m name') kvs' (fst c, snd c + 1)))"
        "createEntry ns key v = Inr e"
        using ih by blast
      then show ?thesis using False by (auto simp: nse)
    qed
  qed
qed

lemma createEntry_negative:
  "v < 0 \<Longrightarrow> createEntry ns key (JNumber v)
     = Inr \<lparr>e_namespace = ns, e_type = TYPE_U32, e_span = 1, e_key = key,
            e_data = uint32_le (word_of_int v)\<rparr>"
  by (simp add: createEntry_def entry_payload_def)

lemma build_namespaceMap_other:
  "name \<notin> fst ` set dat \<Longrightarrow> build_namespaceMap dat n m name = m name"
proof (induction dat arbitrary: n m)
  case Nil
  show ?case by simp
next
  case (Cons nse dat)
  obtain name' kvs where nse: "nse = (name', kvs)" by (cases nse)
  have a: "name \<notin> fst ` set dat" and b: "name \<noteq> name'" using Cons.prems by (auto simp: nse)
  have "build_namespaceMap dat (Suc n) (m(name' \<mapsto> Suc n)) name = (m(name' \<mapsto> Suc n)) name"
    by (rule Cons.IH[OF a])
  then have e1: "build_namespaceMap dat (Suc n) (m(name' \<mapsto> Suc n)) name = m name"
    using b by simp
  have e2: "build_namespaceMap dat n m name = m name" by (rule Cons.IH[OF a])
  have e3: "build_namespaceMap dat (Suc n) m name = m name" by (rule Cons.IH[OF a])
  show ?case
    by (simp add: nse e1 e2 e3 del: fun_upd_apply)
qed

lemma build_namespaceMap_nth:
  assumes "distinct (map fst dat)" and "k < length (nonempty_namespaces dat)"
    and "fst (nonempty_namespaces dat ! k) \<noteq> ''__proto__''"
  shows "build_namespaceMap dat n m (fst (nonempty_namespaces dat ! k)) = Some (n + k + 1)"
  using assms
proof (induction dat arbitrary: n m k)
  case Nil
  then show ?case by (simp add: nonempty_namespaces_def)
next
  case (Cons nse dat)
  obtain name kvs where nse: "nse = (name, kvs)" by (cases nse)
  have d: "distinct (map fst dat)" and fresh: "name \<notin> fst ` set dat"
    using Cons.prems(1) by (auto simp: nse)
  show ?case
  proof (cases "kvs = []")
    case True
    then have "nonempty_namespaces ((name, kvs) # dat) = nonempty_namespaces dat"
      by (simp add: nonempty_namespaces_def)
    then show ?thesis using Cons.IH[OF d, of k n m] Cons.prems(2,3) True by (simp add: nse)
  next
    case False
    then have ne: "nonempty_namespaces ((name, kvs) # dat) = (name, kvs) # nonempty_namespaces dat"
      by (simp add: nonempty_namespaces_def)
    define m' where "m' = (if name = ''__proto__'' then m else m(name \<mapsto> Suc n))"
    have step: "build_namespaceMap (nse # dat) n m = build_namespaceMap dat (Suc n) m'"
      using False by (simp add: nse m'_def del: fun_upd_apply)
    show ?thesis
    proof (cases k)
      case 0
      then have "name \<noteq> ''__proto__''" using Cons.prems(3) by (simp add: ne nse)
      then have "m' name = Some (Suc n)" by (simp add: m'_def)
      moreover have "build_namespaceMap dat (Suc n) m' name = m' name"
        by (rule build_namespaceMap_other[OF fresh])
      ultimately show ?thesis
        unfolding step using 0 by (simp add: ne nse)
    next
      case (Suc k')
      then have "k' < length (nonempty_namespaces dat)" using Cons.prems(2) ne by (simp add: nse)
      moreover have "fst (nonempty_namespaces dat ! k') \<noteq> ''__proto__''"
        using Cons.prems(3) Suc by (simp add: ne nse)
      ultimately have "build_namespaceMap dat (Suc n) m' (fst (nonempty_namespaces dat ! k'))
            = Some (Suc n + k' + 1)"
        by (rule Cons.IH[OF d])
      then show ?thesis
        unfolding step using Suc by (simp add: ne nse)
    qed
  qed
qed

text \<open>The index that the bytes of the \<open>k\<close>-th namespace with values take.\<close>

lemma ns_lookup_nth:
  assumes "distinct (map fst dat)" and "k < length (nonempty_namespaces dat)"
  shows "ns_lookup (build_namespaceMap dat n m) (fst (nonempty_namespaces dat ! k))
         = (if fst (nonempty_namespaces dat ! k) = ''__proto__'' then 0 else n + k + 1)"
  using build_namespaceMap_nth[OF assms, of n m] by (simp add: ns_lookup_def)

lemma def_places_nth:
  assumes "k < length (nonempty_namespaces dat)"
  shows "length (def_places m dat c) = length (nonempty_namespaces dat) \<and>
         (fst (def_places m dat c ! k), snd (def_places m dat c ! k),
          namespace_entry (fst (nonempty_namespaces dat ! k)) (ns_lookup m (fst (nonempty_namespaces dat ! k))))
         \<in> set (place_namespaces m dat c)"
  using assms
proof (induction dat arbitrary: c k)
  case Nil
  then show ?case by (simp add: nonempty_namespaces_def)
next
  case (Cons nse dat)
  obtain name kvs where nse: "nse = (name, kvs)" by (cases nse)
  show ?case
  proof (cases "kvs = []")
    case True
    then have "nonempty_namespaces ((name, kvs) # dat) = nonempty_namespaces dat"
      by (simp add: nonempty_namespaces_def)
    then show ?thesis using Cons.IH[of k c] Cons.prems True by (simp add: nse)
  next
    case False
    then have ne: "nonempty_namespaces ((name, kvs) # dat) = (name, kvs) # nonempty_namespaces dat"
      by (simp add: nonempty_namespaces_def)
    let ?c2 = "end_entries (ns_lookup m name) kvs (fst c, snd c + 1)"
    have len: "length (def_places m dat ?c2) = length (nonempty_namespaces dat)"
    proof (cases "nonempty_namespaces dat = []")
      case True
      then have "\<forall>(n, kvs) \<in> set dat. kvs = []"
        by (auto simp: nonempty_namespaces_def filter_empty_conv)
      then have "def_places m dat c' = []" for c'
        by (induction dat arbitrary: c') auto
      then show ?thesis using True by simp
    next
      case False
      then show ?thesis using Cons.IH[of 0 ?c2] by simp
    qed
    show ?thesis
    proof (cases k)
      case 0
      then show ?thesis using False len by (simp add: ne nse)
    next
      case (Suc k')
      then have "k' < length (nonempty_namespaces dat)" using Cons.prems ne by (simp add: nse)
      from Cons.IH[OF this, of ?c2] show ?thesis
        using False Suc by (simp add: ne nse)
    qed
  qed
qed

lemma def_places_length:
  "length (def_places m dat c) = length (nonempty_namespaces dat)"
proof (cases "nonempty_namespaces dat = []")
  case True
  then have "\<forall>(n, kvs) \<in> set dat. kvs = []"
    by (auto simp: nonempty_namespaces_def filter_empty_conv)
  then have "def_places m dat c' = []" for c'
    by (induction dat arbitrary: c') auto
  then show ?thesis using True by simp
next
  case False
  then show ?thesis using def_places_nth[of 0 dat m c] by simp
qed

lemma def_places_sorted:
  assumes "cur_ok c" and "snd c \<le> 125" and "supported_data dat"
  shows "sorted_wrt (<) (map cur_off (def_places m dat c)) \<and>
         (\<forall>d \<in> set (def_places m dat c). cur_off c \<le> cur_off d)"
  using assms
proof (induction dat arbitrary: c)
  case Nil
  then show ?case by simp
next
  case (Cons nse dat)
  obtain name kvs where nse: "nse = (name, kvs)" by (cases nse)
  have sd: "supported_data dat" using Cons.prems(3) by (simp add: supported_data_def)
  show ?case
  proof (cases "kvs = []")
    case True
    then show ?thesis using Cons.IH[OF Cons.prems(1,2) sd] by (simp add: nse)
  next
    case False
    let ?c1 = "(fst c, snd c + 1)"
    let ?c2 = "end_entries (ns_lookup m name) kvs ?c1"
    have ok1: "cur_ok ?c1" using Cons.prems(1,2) by (simp add: cur_ok_def)
    have sup: "\<forall>(key, v) \<in> set kvs. supported v"
      using Cons.prems(3) by (simp add: supported_data_def nse)
    note en = end_entries_nonempty[OF ok1 False sup, of "ns_lookup m name"]
    have ok2: "cur_ok ?c2" using end_entries_ok[OF ok1] by simp
    have c01: "cur_off c < cur_off ?c1" by (simp add: cur_off_def entry_offset_def)
    note ih = Cons.IH[OF ok2 en(1) sd]
    have "\<forall>d \<in> set (def_places m dat ?c2). cur_off c < cur_off d"
      using ih en(2) c01 by fastforce
    then show ?thesis using False ih by (auto simp: nse less_imp_le)
  qed
qed

lemma createEntry_ns:
  "createEntry ns' key v = map_sum id (\<lambda>e. e\<lparr>e_namespace := ns'\<rparr>) (createEntry ns key v)"
  by (cases "entry_payload v") (auto simp: createEntry_def Let_def)

lemma run_entries_ns: "run_entries L N ns' kvs c = run_entries L N ns kvs c"
proof (induction kvs arbitrary: c)
  case Nil
  show ?case by simp
next
  case (Cons kv kvs)
  obtain key v where kv: "kv = (key, v)" by (cases kv)
  show ?case
    using Cons.IH createEntry_ns[of ns' key v ns]
    by (cases "createEntry ns key v") (simp_all add: kv entry_need_def)
qed

lemma run_namespaces_map: "run_namespaces L N m dat c = run_namespaces L N m' dat c"
proof (induction dat arbitrary: c)
  case Nil
  show ?case by simp
next
  case (Cons nse dat)
  obtain name kvs where nse: "nse = (name, kvs)" by (cases nse)
  have "run_namespaces L N m dat = run_namespaces L N m' dat"
    by (rule ext) (rule Cons.IH)
  then show ?case
    using run_entries_ns[of L N "ns_lookup m name" kvs _ "ns_lookup m' name"]
    by (simp add: nse namespace_entry_need)
qed

lemma run_generate_map:
  "run_generate dat partitionSize =
     bindE (run_namespaces partitionSize (partitionSize div PAGE_SIZE) Map.empty dat (0, 1))
       (\<lambda>c. if snd c > 0 \<and> \<not> fst c * PAGE_SIZE + 32 \<le> partitionSize then Inl RangeError else Inr c)"
  unfolding run_generate_def
  by (subst run_namespaces_map[of _ _ _ _ _ Map.empty]) (rule refl)

text \<open>The definition entry of the \<open>k\<close>-th namespace with a non-empty value map, in the image.\<close>

lemma namespace_definition_slot:
  assumes "generate dat partitionSize = Inr b" and "32 dvd partitionSize"
    and "distinct (map fst dat)" and "k < length (nonempty_namespaces dat)"
  shows "slot_holds b (cur_off (definition_slots dat ! k))
           (namespace_entry (fst (nonempty_namespaces dat ! k))
              (if fst (nonempty_namespaces dat ! k) = ''__proto__'' then 0 else k + 1))"
proof -
  let ?m = "build_namespaceMap dat 0 Map.empty"
  let ?name = "fst (nonempty_namespaces dat ! k)"
  have "ns_lookup ?m ?name = (if ?name = ''__proto__'' then 0 else k + 1)"
    using ns_lookup_nth[OF assms(3,4), of 0 Map.empty] by simp
  then have "(fst (definition_slots dat ! k), snd (definition_slots dat ! k),
              namespace_entry ?name (if ?name = ''__proto__'' then 0 else k + 1)) \<in> set (placements dat)"
    using def_places_nth[OF assms(4), of ?m "(0, 1)"]
    by (simp add: definition_slots_def placements_def)
  from generate_slots[OF assms(1,2) this] show ?thesis by (simp add: cur_off_def)
qed

lemma slice_single:
  assumes "slice b s (s + 1) = [x]" and "s < length b"
  shows "b ! s = x"
  using assms by (simp add: slice_def take_Suc_conv_app_nth hd_drop_conv_nth)

subsection \<open>parse on the image of generate\<close>

text \<open>Text and numbers as the data view reads them.\<close>

lemma unat_of_char: "unat (of_char c :: byte) = of_char c"
proof -
  have "(of_char c :: byte) = of_nat (of_char c)" by (simp add: of_nat_of_char)
  then have "unat (of_char c :: byte) = of_char c mod 256"
    by (simp only: unat_of_nat) simp
  then show ?thesis by simp
qed

lemma encode_good_text: "good_text s \<Longrightarrow> TextEncoder_encode s = map of_char s"
  by (rule encode_ascii) (simp add: good_text_def)

lemma decode_encode:
  assumes "good_text s"
  shows "TextDecoder_decode (TextEncoder_encode s) = s"
proof -
  have "TextDecoder_decode (map of_char s) = s"
    by (induction s) (simp_all add: TextDecoder_decode_def unat_of_char)
  then show ?thesis using assms by (simp add: encode_good_text)
qed

lemma of_char_byte_zero: "(of_char c :: byte) = 0 \<longleftrightarrow> c = CHR 0x00"
proof
  assume "(of_char c :: byte) = 0"
  then have "unat (of_char c :: byte) = 0" by simp
  then have "(of_char c :: nat) = of_char (CHR 0x00)" by (simp add: unat_of_char)
  then show "c = CHR 0x00" by (simp only: of_char_eq_iff)
qed simp

lemma encode_no_zero:
  assumes "good_text s"
  shows "0 \<notin> set (TextEncoder_encode s)"
proof -
  have "\<forall>c \<in> set s. c \<noteq> CHR 0x00" using assms by (simp add: good_text_def)
  then have "0 \<notin> set (map of_char s :: byte list)"
    by (induction s) (simp_all add: of_char_byte_zero)
  then show ?thesis using assms by (simp add: encode_good_text)
qed

lemma indexOf_append_zero:
  "x \<notin> set xs \<Longrightarrow> indexOf (xs @ x # ys) x = int (length xs)"
proof -
  assume a: "x \<notin> set xs"
  then have "takeWhile (\<lambda>y. y \<noteq> x) xs = xs"
    unfolding takeWhile_eq_all_conv by blast
  then show ?thesis by (simp add: indexOf_def takeWhile_tail)
qed

lemma view_bytes_ok:
  "off + n \<le> length b \<Longrightarrow> view_bytes b off n = Inr (slice b off (off + n))"
  by (simp add: view_bytes_def)

lemma slice_one: "off < length b \<Longrightarrow> slice b off (off + 1) = [b ! off]"
  by (simp add: slice_def take_Suc_conv_app_nth hd_drop_conv_nth)

lemma slice_one': "off < length b \<Longrightarrow> slice b off (Suc off) = [b ! off]"
  using slice_one by simp

lemma getUint8_nth: "off < length b \<Longrightarrow> getUint8 b off = Inr (unat (b ! off))"
  by (simp add: getUint8_def view_bytes_def slice_one' le_value_def)

lemma getUint16_slice:
  "off + 2 \<le> length b \<Longrightarrow> getUint16 b off = Inr (le_value (slice b off (off + 2)))"
  by (simp add: getUint16_def view_bytes_def)

lemma getUint32_slice:
  "off + 4 \<le> length b \<Longrightarrow> getUint32 b off = Inr (le_value (slice b off (off + 4)))"
  by (simp add: getUint32_def view_bytes_def)

lemma slice_append:
  assumes "s \<le> m" and "m \<le> e"
  shows "slice b s m @ slice b m e = slice b s e"
proof -
  have e: "e - s = (m - s) + (e - m)" using assms by simp
  have d: "drop (m - s) (drop s b) = drop m b" using assms by simp
  show ?thesis unfolding slice_def e take_add d ..
qed

text \<open>The loop over the continuation slots reads the payload back.\<close>

lemma ceil32_less: "s < ceil32 L \<longleftrightarrow> 32 * s < L"
proof -
  have "Suc s \<le> (L + 31) div 32 \<longleftrightarrow> Suc s * 32 \<le> L + 31"
    by (rule less_eq_div_iff_mult_less_eq) simp
  then show ?thesis unfolding ceil32_def Suc_le_eq by simp linarith
qed

lemma take_overlay_end:
  "off \<le> length b \<Longrightarrow> take (off + length src) (overlay b off src) = take off b @ src"
  by (simp add: overlay_def)

lemma read_chunks_loop:
  assumes "1 \<le> s" and "s \<le> 1 + ceil32 L" and "off + 32 + L \<le> length b"
    and "r = min L (32 * (s - 1))" and "length T = L"
    and "take r T = slice b (off + 32) (off + 32 + r)"
  shows "read_chunks b off L (1 + ceil32 L) s r T = Inr (slice b (off + 32) (off + 32 + L))"
  using assms
proof (induction "1 + ceil32 L - s" arbitrary: s r T)
  case 0
  then have s: "s = 1 + ceil32 L" by simp
  have "\<not> ceil32 L < ceil32 L" by simp
  then have "L \<le> 32 * ceil32 L" unfolding ceil32_less by simp
  then have "r = L" using 0 s by simp
  then have "T = slice b (off + 32) (off + 32 + L)" using 0 by simp
  then show ?case by (subst read_chunks.simps) (simp add: s)
next
  case (Suc n)
  then have lt: "s < 1 + ceil32 L" by simp
  then have "s - 1 < ceil32 L" using Suc.prems(1) by simp
  then have rl: "32 * (s - 1) < L" unfolding ceil32_less .
  then have r: "r = 32 * (s - 1)" using Suc.prems(4) by simp
  define n' where "n' = min (L - r) 32"
  have so: "off + s * 32 = off + 32 + r" using r Suc.prems(1) by (simp add: algebra_simps)
  have fit: "off + 32 + r + n' \<le> length b" using Suc.prems(3) rl r by (simp add: n'_def)
  let ?chunk = "slice b (off + 32 + r) (off + 32 + r + n')"
  have lc: "length ?chunk = n'" using fit by (simp add: length_slice)
  have vb: "view_bytes b (off + s * 32) n' = Inr ?chunk"
    unfolding so using fit by (simp add: view_bytes_def)
  have r': "r + n' = min L (32 * (s + 1 - 1))" using r rl Suc.prems(1) by (simp add: n'_def)
  have rT: "r + n' \<le> length T" using Suc.prems(5) r rl by (simp add: n'_def)
  have "take (r + length ?chunk) (overlay T r ?chunk) = take r T @ ?chunk"
    using rT by (intro take_overlay_end) simp
  then have tk: "take (r + n') (overlay T r ?chunk) = slice b (off + 32) (off + 32 + (r + n'))"
    unfolding lc Suc.prems(6) by (simp add: slice_append add.assoc)
  have "read_chunks b off L (1 + ceil32 L) (s + 1) (r + n') (overlay T r ?chunk)
        = Inr (slice b (off + 32) (off + 32 + L))"
  proof (rule Suc.hyps(1))
    show "n = 1 + ceil32 L - (s + 1)" using Suc.hyps(2) by simp
    show "1 \<le> s + 1" by simp
    show "s + 1 \<le> 1 + ceil32 L" using lt by simp
    show "off + 32 + L \<le> length b" by fact
    show "r + n' = min L (32 * (s + 1 - 1))" by fact
    show "length (overlay T r ?chunk) = L" using rT lc Suc.prems(5) by simp
    show "take (r + n') (overlay T r ?chunk) = slice b (off + 32) (off + 32 + (r + n'))" by fact
  qed
  then show ?case
    using lt vb by (subst read_chunks.simps) (simp add: Let_def n'_def[symmetric])
qed

lemma read_chunks_closed:
  assumes "off + 32 + L \<le> length b"
  shows "read_chunks b off L (1 + ceil32 L) 1 0 (replicate L 0) = Inr (slice b (off + 32) (off + 32 + L))"
  using assms by (intro read_chunks_loop) (simp_all add: slice_def)


lemma length_encode: "good_text s \<Longrightarrow> length (TextEncoder_encode s) = length s"
  by (simp add: encode_good_text)

lemma key_field_good:
  assumes "good_name k"
  shows "key_field k = TextEncoder_encode k @ 0 # replicate (15 - length k) 0"
proof -
  have "length k \<le> 15" and gt: "good_text k" using assms by (simp_all add: good_name_def)
  then have "replicate (16 - length k) (0::byte) = 0 # replicate (15 - length k) 0"
    by (simp add: Suc_diff_le flip: replicate_Suc)
  then show ?thesis
    using \<open>length k \<le> 15\<close> by (simp add: key_field_def pad_zero_def length_encode[OF gt])
qed

lemma key_field_take:
  assumes "good_name k"
  shows "take 16 (key_field k) = key_field k"
proof -
  have "length k \<le> 15" and gt: "good_text k" using assms by (simp_all add: good_name_def)
  then have "length (key_field k) = 16"
    unfolding key_field_good[OF assms] by (simp add: length_encode[OF gt])
  then show ?thesis by simp
qed

lemma key_decode:
  assumes "good_name k"
  shows "indexOf (key_field k) 0 = int (length k)"
    and "TextDecoder_decode (slice (key_field k) 0 (length k)) = k"
proof -
  have gt: "good_text k" using assms by (simp add: good_name_def)
  have nz: "0 \<notin> set (TextEncoder_encode k)"
    using gt by (rule encode_no_zero)
  show "indexOf (key_field k) 0 = int (length k)"
    unfolding key_field_good[OF assms] using indexOf_append_zero[OF nz] by (simp add: length_encode[OF gt])
  show "TextDecoder_decode (slice (key_field k) 0 (length k)) = k"
    unfolding key_field_good[OF assms] by (simp add: slice_def decode_encode[OF gt] length_encode[OF gt])
qed

lemma unat_byte_of_nat: "n < 256 \<Longrightarrow> unat (of_nat n :: byte) = n"
  by (simp add: unat_of_nat)

lemma unat_word_of_int8: "0 \<le> v \<Longrightarrow> v \<le> 255 \<Longrightarrow> unat (word_of_int v :: byte) = nat v"
  by (simp add: unat_eq_nat_uint uint_word_of_int)

lemma unat_word_of_int16: "0 \<le> v \<Longrightarrow> v \<le> 65535 \<Longrightarrow> unat (word_of_int v :: 16 word) = nat v"
  by (simp add: unat_eq_nat_uint uint_word_of_int)

lemma le_value_single [simp]: "le_value [x] = unat x"
  by (simp add: le_value_def)

lemma slice_full_length:
  assumes "slice b s (s + n) = xs" and "length xs = n" and "0 < n"
  shows "s + n \<le> length b"
proof -
  have "length (slice b s (s + n)) = min n (length b - s)" by (simp add: slice_def)
  then show ?thesis using assms by simp
qed

lemma getUint16_eq:
  assumes "slice b off t = xs" and "t = off + 2" and "t \<le> length b"
  shows "getUint16 b off = Inr (le_value xs)"
  using assms by (simp add: getUint16_slice)

lemma getUint32_eq:
  assumes "slice b off t = xs" and "t = off + 4" and "t \<le> length b"
  shows "getUint32 b off = Inr (le_value xs)"
  using assms by (simp add: getUint32_slice)

lemma parse_value_number:
  assumes ce: "createEntry ns key (JNumber n) = Inr e" and sh: "slot_holds b off e"
  shows "parse_value b off (unat (e_type e)) (e_span e) = Inr (Some (JNumber (n mod 2 ^ 32)))"
proof -
  note d = slot_holdsD[OF sh]
  consider (u8) "0 \<le> n" "n \<le> 255" | (u16) "0 \<le> n" "255 < n" "n \<le> 65535"
    | (u32) "n < 0 \<or> 65535 < n" by linarith
  then show ?thesis
  proof cases
    case u8
    then have e: "e = \<lparr>e_namespace = ns, e_type = TYPE_U8, e_span = 1, e_key = key,
                       e_data = [word_of_int n]\<rparr>"
      using ce by (simp add: createEntry_def entry_payload_def)
    have "slice b (off + 24) (off + 24 + 1) = [word_of_int n]" using d(8) by (simp add: e)
    then have "b ! (off + 24) = word_of_int n" using d(1) by (intro slice_single) simp_all
    then have "getUint8 b (off + 24) = Inr (nat n)"
      using d(1) u8 by (simp add: getUint8_nth unat_word_of_int8)
    moreover have "n mod 2 ^ 32 = n" using u8 by simp
    ultimately show ?thesis using u8 by (simp add: parse_value_def e)
  next
    case u16
    then have e: "e = \<lparr>e_namespace = ns, e_type = TYPE_U16, e_span = 1, e_key = key,
                       e_data = uint16_le (word_of_int n)\<rparr>"
      using ce by (simp add: createEntry_def entry_payload_def)
    have "slice b (off + 24) (off + 24 + 2) = uint16_le (word_of_int n)"
      using d(8) by (simp add: e uint16_le_def)
    then have "getUint16 b (off + 24) = Inr (nat n)"
      using d(1) u16 by (simp add: getUint16_slice le_value_uint16 unat_word_of_int16)
    moreover have "n mod 2 ^ 32 = n" using u16 by simp
    ultimately show ?thesis using u16 by (simp add: parse_value_def e)
  next
    case u32
    then have e: "e = \<lparr>e_namespace = ns, e_type = TYPE_U32, e_span = 1, e_key = key,
                       e_data = uint32_le (word_of_int n)\<rparr>"
      using ce by (auto simp: createEntry_def entry_payload_def)
    have "slice b (off + 24) (off + 24 + 4) = uint32_le (word_of_int n)"
      using d(8) by (simp add: e uint32_le_def)
    then have "getUint32 b (off + 24) = Inr (nat (n mod 2 ^ 32))"
      using d(1) by (simp add: getUint32_slice le_value_uint32 unat_word_of_int32)
    then show ?thesis by (simp add: parse_value_def e)
  qed
qed

lemma parse_value_string:
  assumes ce: "createEntry ns key (JString s) = Inr e" and sh: "slot_holds b off e"
    and pl: "slice b (off + 32) (off + 32 + length (e_data e)) = e_data e"
    and gt: "good_text s" and sp: "e_span e \<le> 125"
  shows "parse_value b off (unat (e_type e)) (e_span e) = Inr (Some (JString s))"
proof -
  note d = slot_holdsD[OF sh]
  let ?dat = "TextEncoder_encode s @ [0]"
  have e: "e = \<lparr>e_namespace = ns, e_type = TYPE_STR, e_span = 1 + ceil32 (length ?dat), e_key = key,
                 e_data = ?dat\<rparr>"
    using ce by (simp add: createEntry_def entry_payload_def)
  have "ceil32 (length ?dat) < 125" using sp by (simp add: e)
  then have "\<not> 125 \<le> ceil32 (length ?dat)" by simp
  then have "\<not> 32 * 124 < length ?dat" unfolding ceil32_less[symmetric] by simp
  then have len: "length ?dat \<le> 3968" by simp
  have "slice b (off + 24) (off + 26) = uint16_le (of_nat (length (e_data e)))"
    using d(7) by (simp add: e)
  then have "getUint16 b (off + 24) = Inr (le_value (uint16_le (of_nat (length (e_data e)))))"
    by (rule getUint16_eq) (use d(1) in simp_all)
  then have "getUint16 b (off + 24) = Inr (length ?dat mod 65536)"
    unfolding le_value_length16 by (simp add: e)
  then have g: "getUint16 b (off + 24) = Inr (length ?dat)" using len by simp
  have fit: "off + 32 + length ?dat \<le> length b"
    using pl by (intro slice_full_length[where xs = ?dat]) (simp_all add: e)
  have rc: "read_chunks b off (length ?dat) (1 + ceil32 (length ?dat)) 1 0 (replicate (length ?dat) 0)
            = Inr ?dat"
    using read_chunks_closed[OF fit] pl by (simp add: e)
  have nz: "0 \<notin> set (TextEncoder_encode s)"
    using gt by (rule encode_no_zero)
  have io: "indexOf ?dat 0 = int (length s)"
    using indexOf_append_zero[OF nz, of "[]"] by (simp add: length_encode[OF gt])
  have sl: "slice ?dat 0 (length s) = TextEncoder_encode s"
    by (simp add: slice_def length_encode[OF gt])
  show ?thesis
    unfolding parse_value_def e using g rc io sl
    by (simp add: Let_def decode_encode[OF gt] del: length_append)
qed

text \<open>One round of the slot loop on a free slot, a namespace definition and a data entry.\<close>

lemma parse_entry_free:
  "off < length b \<Longrightarrow> b ! off = 0xFF \<Longrightarrow> parse_entry b off st = Inr (1, st)"
  by (cases st) (simp add: parse_entry_def getUint8_nth)

lemma view_key:
  assumes "slice b (off + 8) (off + 24) = kb" and "off + 32 \<le> length b"
  shows "view_bytes b (off + 8) 16 = Inr kb"
proof -
  have e: "off + 8 + 16 = off + 24" by simp
  show ?thesis unfolding view_bytes_def e using assms by simp
qed

lemma parse_entry_namespace:
  assumes sh: "slot_holds b off (namespace_entry name idx)" and gn: "good_name name"
    and idx: "idx < 256"
  shows "parse_entry b off (dat, nsmap) = Inr (1, (obj_ensure name dat, nsmap(idx \<mapsto> name)))"
proof -
  note d = slot_holdsD[OF sh]
  have g0: "getUint8 b off = Inr 0" using d(1,2) by (simp add: getUint8_nth namespace_entry_def)
  have g1: "getUint8 b (off + 1) = Inr 1"
    using d(1,3) by (simp add: getUint8_nth namespace_entry_def)
  have g2: "getUint8 b (off + 2) = Inr 1"
    using d(1,4) by (simp add: getUint8_nth namespace_entry_def)
  have kb: "view_bytes b (off + 8) 16 = Inr (key_field name)"
    using d(6) d(1) by (intro view_key) (simp_all add: namespace_entry_def key_field_take[OF gn])
  have "slice b (off + 24) (off + 24 + 1) = [of_nat idx]"
    using d(8) by (simp add: namespace_entry_def)
  then have "b ! (off + 24) = of_nat idx" using d(1) by (intro slice_single) simp_all
  then have g24: "getUint8 b (off + 24) = Inr idx"
    using d(1) idx by (simp add: getUint8_nth unat_byte_of_nat)
  have pos: "0 < length name" using gn by (simp add: good_name_def)
  show ?thesis
    unfolding parse_entry_def prod.case g0 g1 g2 kb g24 bindE_simps Let_def key_decode[OF gn]
    using pos by (simp add: key_decode[OF gn])
qed

lemma parse_entry_data:
  assumes ce: "createEntry ns key v = Inr e" and sh: "slot_holds b off e"
    and pl: "e_type e = TYPE_STR \<longrightarrow> slice b (off + 32) (off + 32 + length (e_data e)) = e_data e"
    and gk: "good_name key" and gv: "good_value v" and sp: "e_span e \<le> 125"
    and ns: "1 \<le> ns" "ns \<le> 254" and nm: "nsmap ns = Some name" "name \<noteq> []"
  shows "parse_entry b off (dat, nsmap)
         = Inr (e_span e, (obj_set_in name key (decoded_value v) (obj_ensure name dat), nsmap))"
proof -
  note d = slot_holdsD[OF sh]
  have en: "e_namespace e = ns" and ek: "e_key e = key"
    using ce by (auto simp: createEntry_def bindE_def Let_def split: sum.splits prod.splits)
  have pv: "parse_value b off (unat (e_type e)) (e_span e) = Inr (Some (decoded_value v))"
  proof (cases v)
    case (JNumber n)
    then show ?thesis using parse_value_number[OF ce[unfolded JNumber] sh]
      by (simp add: decoded_value_def)
  next
    case (JString s)
    have "e_type e = TYPE_STR" using ce by (auto simp: JString createEntry_def entry_payload_def)
    then show ?thesis
      using parse_value_string[OF ce[unfolded JString] sh _ _ sp] pl gv
      by (simp add: JString decoded_value_def good_value_def)
  qed (use ce in \<open>simp_all add: createEntry_def entry_payload_def\<close>)
  have g0: "getUint8 b off = Inr ns"
    using d(1,2) ns by (simp add: getUint8_nth en unat_byte_of_nat)
  have g1: "getUint8 b (off + 1) = Inr (unat (e_type e))"
    using d(1,3) by (simp add: getUint8_nth)
  have g2: "getUint8 b (off + 2) = Inr (e_span e)"
    using d(1,4) sp by (simp add: getUint8_nth unat_byte_of_nat)
  have kb: "view_bytes b (off + 8) 16 = Inr (key_field key)"
    using d(6) d(1) by (intro view_key) (simp_all add: ek key_field_take[OF gk])
  have pos: "0 < length key" using gk by (simp add: good_name_def)
  show ?thesis
    unfolding parse_entry_def prod.case g0 g1 g2 kb pv bindE_simps Let_def key_decode[OF gk]
    using pos ns nm by (simp add: key_decode[OF gk])
qed

lemma obj_set_new: "k \<notin> fst ` set xs \<Longrightarrow> obj_set k v xs = xs @ [(k, v)]"
  by (induction xs) auto

lemma obj_set_last: "k \<notin> fst ` set xs \<Longrightarrow> obj_set k v (xs @ [(k, w)]) = xs @ [(k, v)]"
  by (induction xs) auto

lemma map_of_last: "k \<notin> fst ` set xs \<Longrightarrow> map_of (xs @ [(k, w)]) k = Some w"
  by (induction xs) auto

lemma obj_ensure_new: "k \<notin> fst ` set xs \<Longrightarrow> obj_ensure k xs = xs @ [(k, [])]"
  by (simp add: obj_ensure_def obj_set_new map_of_eq_None_iff[THEN iffD2])

lemma obj_ensure_last:
  assumes "k \<notin> fst ` set xs"
  shows "obj_ensure k (xs @ [(k, w)]) = xs @ [(k, w)]"
  unfolding obj_ensure_def by (simp only: map_of_last[OF assms] option.case)

lemma obj_set_in_last:
  assumes "name \<notin> fst ` set done" and "key \<notin> fst ` set pre"
  shows "obj_set_in name key v (done @ [(name, pre)]) = done @ [(name, pre @ [(key, v)])]"
  unfolding obj_set_in_def
  by (simp only: map_of_last[OF assms(1)] option.case obj_set_last[OF assms(1)] obj_set_new[OF assms(2)])

lemma parse_from_pair:
  "parse_from b N (p, i) st =
     (case parse_entries b (p * PAGE_SIZE) i st of
        None \<Rightarrow> None
      | Some (Inl e) \<Rightarrow> Some (Inl e)
      | Some (Inr st') \<Rightarrow> parse_pages b [p + 1 ..< N] st')"
  unfolding parse_from_def fst_conv snd_conv ..

lemma parse_from_step:
  assumes "i < 126" and "parse_entry b (entry_offset p i) st = Inr (s, st')" and "i + s < 126"
  shows "parse_from b N (p, i) st = parse_from b N (p, i + s) st'"
proof -
  have "parse_entries b (p * PAGE_SIZE) i st = parse_entries b (p * PAGE_SIZE) (i + s) st'"
    using assms(1,2) by (subst parse_entries.simps) (simp add: entry_offset_def)
  then show ?thesis by (simp add: parse_from_pair)
qed

lemma parse_from_step_end:
  assumes "i < 126" and "parse_entry b (entry_offset p i) st = Inr (s, st')" and "126 \<le> i + s"
  shows "parse_from b N (p, i) st = parse_pages b [p + 1 ..< N] st'"
proof -
  have "parse_entries b (p * PAGE_SIZE) (i + s) st' = Some (Inr st')"
    using assms(3) by (subst parse_entries.simps) simp
  moreover have "parse_entries b (p * PAGE_SIZE) i st = parse_entries b (p * PAGE_SIZE) (i + s) st'"
    using assms(1,2) by (subst parse_entries.simps) (simp add: entry_offset_def)
  ultimately show ?thesis by (simp add: parse_from_pair)
qed

lemma parse_pages_active:
  assumes "active_pages b N P" and "p \<le> P"
  shows "parse_pages b [p ..< N] st = parse_from b N (p, 1) st"
proof -
  from assms have pN: "p < N" and fit: "p * PAGE_SIZE + 4 \<le> length b"
    and sl: "slice b (p * PAGE_SIZE) (p * PAGE_SIZE + 4) = uint32_le PAGE_STATE_ACTIVE"
    by (auto simp: active_pages_def)
  have g: "getUint32 b (p * PAGE_SIZE) = Inr 4294967294"
    using getUint32_eq[OF sl refl fit] by (simp add: le_value_uint32)
  have e: "[p ..< N] = p # [p + 1 ..< N]" using pN by (simp add: upt_conv_Cons)
  show ?thesis unfolding e parse_pages.simps Let_def g parse_from_pair by simp
qed

lemma parse_from_advance:
  assumes "i < 126" and "parse_entry b (entry_offset p i) st = Inr (s, st')" and "i + s \<le> 126"
    and "active_pages b N P" and "fst (advance (p, i) s) \<le> P"
  shows "parse_from b N (p, i) st = parse_from b N (advance (p, i) s) st'"
proof (cases "i + s < 126")
  case True
  then show ?thesis using parse_from_step[OF assms(1,2) True] by simp
next
  case False
  then have ge: "126 \<le> i + s" by simp
  then have "p + 1 \<le> P" using assms(5) by simp
  then show ?thesis
    using parse_from_step_end[OF assms(1,2) ge] parse_pages_active[OF assms(4), of "p + 1"] ge
    by simp
qed

text \<open>The slot loop follows the cursor of \<open>generate\<close> through the entries and namespaces.\<close>

lemma image_holds_Cons:
  "image_holds b ((p, i, e) # xs) \<longleftrightarrow>
     slot_holds b (entry_offset p i) e \<and> i + e_span e \<le> ENTRIES_PER_PAGE \<and>
     (e_type e = TYPE_STR \<longrightarrow>
        slice b (entry_offset p i + 32) (entry_offset p i + 32 + length (e_data e)) = e_data e) \<and>
     image_holds b xs"
  by (simp add: image_holds_def)

lemma image_holds_append:
  "image_holds b (xs @ ys) \<longleftrightarrow> image_holds b xs \<and> image_holds b ys"
  by (simp add: image_holds_def ball_Un)

lemma decoded_entries_Cons:
  "decoded_entries ((key, v) # kvs) = (key, decoded_value v) # decoded_entries kvs"
  by (simp add: decoded_entries_def)

lemma walk_entries:
  assumes "1 \<le> snd c"
    and "image_holds b (place_entries ns kvs c)"
    and "\<forall>(key, v) \<in> set kvs. supported v \<and> good_name key \<and> good_value v"
    and "distinct (map fst pre @ map fst kvs)"
    and "fst (end_entries ns kvs c) \<le> P"
    and act: "active_pages b N P"
    and ns: "1 \<le> ns" "ns \<le> 254" and nm: "nsmap ns = Some name" "name \<noteq> []"
    and nd: "name \<notin> fst ` set done"
  shows "parse_from b N c (done @ [(name, pre)], nsmap)
         = parse_from b N (end_entries ns kvs c) (done @ [(name, pre @ decoded_entries kvs)], nsmap)"
  using assms(1-5)
proof (induction kvs arbitrary: c pre)
  case Nil
  then show ?case by (simp add: decoded_entries_def)
next
  case (Cons kv kvs)
  obtain key v where kv: "kv = (key, v)" by (cases kv)
  obtain p i where c: "c = (p, i)" by (cases c)
  have sup: "supported v" and gk: "good_name key" and gv: "good_value v"
    using Cons.prems(3) by (auto simp: kv)
  from sup obtain e where ce: "createEntry ns key v = Inr e"
    using createEntry_supported[of ns key v] by blast
  let ?c' = "advance (p, i) (e_span e)"
  have pe: "place_entries ns (kv # kvs) c = (p, i, e) # place_entries ns kvs ?c'"
    and ee: "end_entries ns (kv # kvs) c = end_entries ns kvs ?c'"
    by (simp_all add: kv c ce)
  from Cons.prems(2) have sh: "slot_holds b (entry_offset p i) e" and fit: "i + e_span e \<le> 126"
    and pl: "e_type e = TYPE_STR \<longrightarrow>
        slice b (entry_offset p i + 32) (entry_offset p i + 32 + length (e_data e)) = e_data e"
    and ih_img: "image_holds b (place_entries ns kvs ?c')"
    unfolding pe image_holds_Cons by simp_all
  have sp1: "1 \<le> e_span e" using createEntry_wf[OF ce] by (rule wf_entry_span)
  have i1: "1 \<le> i" using Cons.prems(1) by (simp add: c)
  have i126: "i < 126" and sp: "e_span e \<le> 125" using fit sp1 i1 by simp_all
  have knew: "key \<notin> fst ` set pre" using Cons.prems(4) by (auto simp: kv)
  have pe1: "parse_entry b (entry_offset p i) (done @ [(name, pre)], nsmap)
             = Inr (e_span e, (done @ [(name, pre @ [(key, decoded_value v)])], nsmap))"
    using parse_entry_data[where nsmap = nsmap and name = name and dat = "done @ [(name, pre)]",
        OF ce sh pl gk gv sp ns nm]
    by (simp only: obj_ensure_last[OF nd] obj_set_in_last[OF nd knew])
  have pg: "fst ?c' \<le> P"
    using end_entries_page[of ?c' ns kvs] Cons.prems(5) unfolding ee by simp
  have "parse_from b N c (done @ [(name, pre)], nsmap)
        = parse_from b N ?c' (done @ [(name, pre @ [(key, decoded_value v)])], nsmap)"
    unfolding c using i126 pe1 fit act pg by (rule parse_from_advance)
  also have "\<dots> = parse_from b N (end_entries ns kvs ?c')
                     (done @ [(name, (pre @ [(key, decoded_value v)]) @ decoded_entries kvs)], nsmap)"
  proof (rule Cons.IH)
    have "cur_ok (p, i)" using i1 i126 by (simp add: cur_ok_def)
    then have "cur_ok ?c'" using sp1 by (rule advance_ok(1))
    then show "1 \<le> snd ?c'" by (simp add: cur_ok_def)
    show "image_holds b (place_entries ns kvs ?c')" by fact
    show "\<forall>(key, v) \<in> set kvs. supported v \<and> good_name key \<and> good_value v"
      using Cons.prems(3) by simp
    show "distinct (map fst (pre @ [(key, decoded_value v)]) @ map fst kvs)"
      using Cons.prems(4) by (simp add: kv)
    show "fst (end_entries ns kvs ?c') \<le> P" using Cons.prems(5) unfolding ee .
  qed
  finally show ?case unfolding ee by (simp add: kv decoded_entries_Cons)
qed

lemma nonempty_namespaces_Cons:
  "nonempty_namespaces ((name, kvs) # rest)
   = (if kvs = [] then nonempty_namespaces rest else (name, kvs) # nonempty_namespaces rest)"
  by (simp add: nonempty_namespaces_def)

lemma decoded_Cons:
  "decoded ((name, kvs) # rest)
   = (if kvs = [] then decoded rest else (name, decoded_entries kvs) # decoded rest)"
  by (simp add: decoded_def nonempty_namespaces_Cons)

lemma walk_namespaces:
  assumes "1 \<le> snd c"
    and "image_holds b (place_namespaces m rest c)"
    and "\<forall>(name, kvs) \<in> set rest. good_name name \<and> distinct (map fst kvs) \<and>
           (\<forall>(key, v) \<in> set kvs. supported v \<and> good_name key \<and> good_value v)"
    and "distinct (map fst rest)" and "fst ` set rest \<inter> fst ` set acc = {}"
    and "\<forall>k < length (nonempty_namespaces rest).
           ns_lookup m (fst (nonempty_namespaces rest ! k)) = n + k + 1"
    and "n + length (nonempty_namespaces rest) \<le> 254"
    and "fst (end_namespaces m rest c) \<le> P"
    and act: "active_pages b N P"
  shows "\<exists>nsmap'. parse_from b N c (acc, nsmap)
           = parse_from b N (end_namespaces m rest c) (acc @ decoded rest, nsmap')"
  using assms(1-8)
proof (induction rest arbitrary: c acc nsmap n)
  case Nil
  then show ?case by (auto simp: decoded_def nonempty_namespaces_def)
next
  case (Cons nse rest)
  obtain name kvs where nse: "nse = (name, kvs)" by (cases nse)
  show ?case
  proof (cases "kvs = []")
    case True
    have "\<exists>nsmap'. parse_from b N c (acc, nsmap)
            = parse_from b N (end_namespaces m rest c) (acc @ decoded rest, nsmap')"
    proof (rule Cons.IH)
      show "1 \<le> snd c" by fact
      show "image_holds b (place_namespaces m rest c)" using Cons.prems(2) by (simp add: nse True)
      show "\<forall>(name, kvs) \<in> set rest. good_name name \<and> distinct (map fst kvs) \<and>
              (\<forall>(key, v) \<in> set kvs. supported v \<and> good_name key \<and> good_value v)"
        using Cons.prems(3) by simp
      show "distinct (map fst rest)" using Cons.prems(4) by simp
      show "fst ` set rest \<inter> fst ` set acc = {}" using Cons.prems(5) by auto
      show "\<forall>k < length (nonempty_namespaces rest).
              ns_lookup m (fst (nonempty_namespaces rest ! k)) = n + k + 1"
        using Cons.prems(6) by (simp add: nse True nonempty_namespaces_Cons)
      show "n + length (nonempty_namespaces rest) \<le> 254"
        using Cons.prems(7) by (simp add: nse True nonempty_namespaces_Cons)
      show "fst (end_namespaces m rest c) \<le> P" using Cons.prems(8) by (simp add: nse True)
    qed
    then show ?thesis by (simp add: nse True decoded_Cons)
  next
    case False
    obtain p i where c: "c = (p, i)" by (cases c)
    let ?idx = "ns_lookup m name"
    let ?c2 = "end_entries ?idx kvs (p, i + 1)"
    have ne: "nonempty_namespaces (nse # rest) = (name, kvs) # nonempty_namespaces rest"
      using False by (simp add: nse nonempty_namespaces_Cons)
    have idx: "?idx = n + 1" using Cons.prems(6)[unfolded ne] by auto
    have n254: "n + 1 \<le> 254" using Cons.prems(7)[unfolded ne] by simp
    have pn: "place_namespaces m (nse # rest) c
              = (p, i, namespace_entry name ?idx) # place_entries ?idx kvs (p, i + 1)
                @ place_namespaces m rest ?c2"
      and en: "end_namespaces m (nse # rest) c = end_namespaces m rest ?c2"
      using False by (simp_all add: nse c)
    from Cons.prems(2) have sh: "slot_holds b (entry_offset p i) (namespace_entry name ?idx)"
      and img1: "image_holds b (place_entries ?idx kvs (p, i + 1))"
      and img2: "image_holds b (place_namespaces m rest ?c2)"
      unfolding pn image_holds_Cons image_holds_append by simp_all
    have gn: "good_name name" and dk: "distinct (map fst kvs)"
      and gkv: "\<forall>(key, v) \<in> set kvs. supported v \<and> good_name key \<and> good_value v"
      using Cons.prems(3) by (auto simp: nse)
    have i1: "1 \<le> i" using Cons.prems(1) by (simp add: c)
    have i125: "i + 1 < 126"
    proof -
      obtain key v kvs' where kvs: "kvs = (key, v) # kvs'" using False by (cases kvs) auto
      then have "supported v" using gkv by simp
      then obtain e where ce: "createEntry ?idx key v = Inr e"
        using createEntry_supported[of ?idx key v] by blast
      have "1 \<le> e_span e" using createEntry_wf[OF ce] by (rule wf_entry_span)
      moreover have "i + 1 + e_span e \<le> 126"
        using img1 by (simp add: kvs ce image_holds_Cons)
      ultimately show ?thesis by simp
    qed
    have nacc: "name \<notin> fst ` set acc" using Cons.prems(5) by (auto simp: nse)
    let ?nsmap1 = "nsmap(?idx \<mapsto> name)"
    have pe: "parse_entry b (entry_offset p i) (acc, nsmap) = Inr (1, (acc @ [(name, [])], ?nsmap1))"
      using parse_entry_namespace[OF sh gn, of acc nsmap] idx n254
      by (simp add: obj_ensure_new[OF nacc])
    have pg2: "fst ?c2 \<le> P"
      using end_namespaces_page[of ?c2 m rest] Cons.prems(8) unfolding en by simp
    have "parse_from b N c (acc, nsmap) = parse_from b N (p, i + 1) (acc @ [(name, [])], ?nsmap1)"
      unfolding c using _ pe i125 by (rule parse_from_step) (use i125 in simp)
    also have "\<dots> = parse_from b N ?c2 (acc @ [(name, [] @ decoded_entries kvs)], ?nsmap1)"
    proof (rule walk_entries)
      show "1 \<le> snd (p, i + 1)" by simp
      show "image_holds b (place_entries ?idx kvs (p, i + 1))" by fact
      show "\<forall>(key, v) \<in> set kvs. supported v \<and> good_name key \<and> good_value v" by fact
      show "distinct (map fst [] @ map fst kvs)" using dk by simp
      show "fst ?c2 \<le> P" by fact
      show "active_pages b N P" by fact
      show "1 \<le> ?idx" "?idx \<le> 254" using idx n254 by simp_all
      show "?nsmap1 ?idx = Some name" by simp
      show "name \<noteq> []" using gn by (simp add: good_name_def)
      show "name \<notin> fst ` set acc" by fact
    qed
    finally have first: "parse_from b N c (acc, nsmap)
        = parse_from b N ?c2 (acc @ [(name, decoded_entries kvs)], ?nsmap1)" by simp
    have "\<exists>nsmap'. parse_from b N ?c2 (acc @ [(name, decoded_entries kvs)], ?nsmap1)
            = parse_from b N (end_namespaces m rest ?c2)
                ((acc @ [(name, decoded_entries kvs)]) @ decoded rest, nsmap')"
    proof (rule Cons.IH)
      have "cur_ok (p, i + 1)" using i125 by (simp add: cur_ok_def)
      then have "cur_ok ?c2" using end_entries_ok by blast
      then show "1 \<le> snd ?c2" by (simp add: cur_ok_def)
      show "image_holds b (place_namespaces m rest ?c2)" by fact
      show "\<forall>(name, kvs) \<in> set rest. good_name name \<and> distinct (map fst kvs) \<and>
              (\<forall>(key, v) \<in> set kvs. supported v \<and> good_name key \<and> good_value v)"
        using Cons.prems(3) by simp
      show "distinct (map fst rest)" using Cons.prems(4) by simp
      show "fst ` set rest \<inter> fst ` set (acc @ [(name, decoded_entries kvs)]) = {}"
        using Cons.prems(4,5) by (auto simp: nse)
      show "\<forall>k < length (nonempty_namespaces rest).
              ns_lookup m (fst (nonempty_namespaces rest ! k)) = n + 1 + k + 1"
      proof (intro allI impI)
        fix k assume "k < length (nonempty_namespaces rest)"
        then have "Suc k < length (nonempty_namespaces (nse # rest))" by (simp add: ne)
        from Cons.prems(6)[rule_format, OF this] show
          "ns_lookup m (fst (nonempty_namespaces rest ! k)) = n + 1 + k + 1"
          by (simp add: ne)
      qed
      show "n + 1 + length (nonempty_namespaces rest) \<le> 254"
        using Cons.prems(7) by (simp add: ne)
      show "fst (end_namespaces m rest ?c2) \<le> P" using Cons.prems(8) unfolding en .
    qed
    then show ?thesis unfolding first en using False by (simp add: nse decoded_Cons)
  qed
qed

lemma parse_entries_free:
  assumes "\<forall>j. i \<le> j \<and> j < 126 \<longrightarrow> entry_offset p j < length b \<and> b ! entry_offset p j = 0xFF"
  shows "parse_entries b (p * PAGE_SIZE) i st = Some (Inr st)"
  using assms
proof (induction "126 - i" arbitrary: i)
  case 0
  then show ?case by (subst parse_entries.simps) simp
next
  case (Suc n)
  then have i: "i < 126" by simp
  then have "parse_entry b (entry_offset p i) st = Inr (1, st)"
    using Suc.prems by (intro parse_entry_free) auto
  then have "parse_entries b (p * PAGE_SIZE) i st = parse_entries b (p * PAGE_SIZE) (i + 1) st"
    using i by (subst parse_entries.simps) (simp add: entry_offset_def)
  also have "\<dots> = Some (Inr st)"
    using Suc.hyps(2) Suc.prems by (intro Suc.hyps(1)) auto
  finally show ?case .
qed

lemma slice_four:
  assumes "s + 4 \<le> length b"
  shows "slice b s (s + 4) = [b ! s, b ! (s + 1), b ! (s + 2), b ! (s + 3)]"
proof (rule nth_equalityI)
  show "length (slice b s (s + 4)) = length [b ! s, b ! (s + 1), b ! (s + 2), b ! (s + 3)]"
    using assms by (simp add: length_slice)
  fix j assume "j < length (slice b s (s + 4))"
  then have j: "j < 4" using assms by (simp add: length_slice)
  then have "j = 0 \<or> j = 1 \<or> j = 2 \<or> j = 3" by linarith
  then show "slice b s (s + 4) ! j = [b ! s, b ! (s + 1), b ! (s + 2), b ! (s + 3)] ! j"
    using assms by (auto simp: nth_slice)
qed

lemma parse_pages_empty:
  assumes "\<forall>q \<in> set qs. q * PAGE_SIZE + 4 \<le> length b \<and>
             (\<forall>t < 4. b ! (q * PAGE_SIZE + t) = 0xFF)"
  shows "parse_pages b qs st = Some (Inr st)"
  using assms
proof (induction qs)
  case Nil
  then show ?case by simp
next
  case (Cons q qs)
  then have fit: "q * PAGE_SIZE + 4 \<le> length b"
    and ff: "\<forall>t < 4. b ! (q * PAGE_SIZE + t) = 0xFF" by simp_all
  have "slice b (q * PAGE_SIZE) (q * PAGE_SIZE + 4) = [0xFF, 0xFF, 0xFF, 0xFF]"
    unfolding slice_four[OF fit] using ff[rule_format, of 0] ff[rule_format, of 1]
      ff[rule_format, of 2] ff[rule_format, of 3] by simp
  then have "getUint32 b (q * PAGE_SIZE) = Inr (le_value [0xFF, 0xFF, 0xFF, 0xFF])"
    by (rule getUint32_eq) (use fit in simp_all)
  then have "getUint32 b (q * PAGE_SIZE) = Inr 4294967295" by (simp add: le_value_def)
  then show ?case using Cons by (simp add: Let_def)
qed

text \<open>The rest of the loops leaves the bytes before the cursor, the page headers apart.\<close>

lemma generate_unfold:
  assumes "generate dat partitionSize = Inr b"
  obtains b1 where
    "gen_namespaces (partitionSize div PAGE_SIZE) (build_namespaceMap dat 0 Map.empty) dat
       (write_bitmap (replicate partitionSize 0xFF) 0, 0, 1) = Inr (b1, last_cursor dat)"
    "length b1 = partitionSize" "fst (last_cursor dat) * PAGE_SIZE + 32 \<le> partitionSize"
    "b = header_written b1 (fst (last_cursor dat))"
proof -
  let ?m = "build_namespaceMap dat 0 Map.empty"
  let ?N = "partitionSize div PAGE_SIZE"
  let ?b0 = "write_bitmap (replicate partitionSize 0xFF) 0"
  from assms(1) obtain st where gn0: "gen_namespaces ?N ?m dat (?b0, 0, 1) = Inr st"
    and fin0: "(case st of (b, pageIndex, entryIndex) \<Rightarrow>
                 if entryIndex > 0 then finalizePage b pageIndex entryIndex else Inr b) = Inr b"
    unfolding generate_def Let_def bindE_eq_Inr by blast
  obtain b1 c where st: "st = (b1, c)" by (cases st)
  have gn: "gen_namespaces ?N ?m dat (?b0, 0, 1) = Inr (b1, c)" using gn0 st by simp
  have fin: "(if snd c > 0 then finalizePage b1 (fst c) (snd c) else Inr b1) = Inr b"
    using fin0 st by (cases c) (auto split: if_splits)
  note u = gen_namespaces_untouched[OF gn]
  have c: "c = last_cursor dat" using u by (simp add: last_cursor_def)
  have ok0: "cur_ok (0, 1)" by (simp add: cur_ok_def)
  have "cur_ok (end_namespaces ?m dat (0, 1))"
    using end_namespaces_ok[OF ok0 _ gen_namespaces_supported[OF gn], of ?m] by simp
  then have pos: "snd c > 0" using c by (simp add: cur_ok_def last_cursor_def)
  have l1: "length b1 = partitionSize" using u by simp
  have hdr: "fst c * PAGE_SIZE + 32 \<le> length b1" and b: "b = header_written b1 (fst c)"
    using fin pos by (auto simp: finalizePage_closed split: if_splits)
  show ?thesis
  proof (rule that)
    show "gen_namespaces ?N ?m dat (?b0, 0, 1) = Inr (b1, last_cursor dat)" using gn c by simp
    show "length b1 = partitionSize" by fact
    show "fst (last_cursor dat) * PAGE_SIZE + 32 \<le> partitionSize" using hdr c l1 by simp
    show "b = header_written b1 (fst (last_cursor dat))" using b c by simp
  qed
qed

lemma span_region:
  assumes "1 \<le> i" and "i + s \<le> 126" and "entry_offset p i \<le> k"
    and "k < entry_offset p i + 32 * s"
  shows "k \<notin> header_bytes q" "k \<notin> bitmap_bytes q" "k < cur_off (advance (p, i) s)"
proof -
  have lo: "p * 4096 + 64 \<le> k" using assms(1,3) by (simp add: entry_offset_def)
  have hi: "k < p * 4096 + 4064" using assms(2,4) by (simp add: entry_offset_def)
  show "k \<notin> header_bytes q" using lo hi by (cases "q \<le> p") (auto simp: header_bytes_def)
  show "k \<notin> bitmap_bytes q" using lo hi by (cases "q \<le> p") (auto simp: bitmap_bytes_def)
  show "k < cur_off (advance (p, i) s)"
    using hi assms(4) by (simp add: cur_off_def entry_offset_def)
qed

lemma cursor_below_next_page:
  assumes "cur_ok (p, i)" and "k < cur_off (p, i)" and "p < q"
  shows "k < q * PAGE_SIZE"
proof -
  have "cur_off (p, i) \<le> p * 4096 + 4064"
    using assms(1) by (simp add: cur_ok_def cur_off_def entry_offset_def)
  moreover have "(p + 1) * 4096 \<le> q * 4096" using assms(3) by simp
  ultimately show ?thesis using assms(2) by simp
qed

lemma gen_entries_frame:
  assumes g: "gen_entries N ns kvs (b, p, i) = Inr (b', c')" and ok: "cur_ok (p, i)"
    and k: "k < cur_off (p, i)" and h: "k \<notin> header_bytes p"
  shows "b' ! k = b ! k"
proof -
  note u = gen_entries_untouched[OF g]
  have 1: "k \<notin> (\<Union>x \<in> set (place_entries ns kvs (p, i)). reach_bytes x)"
  proof
    assume "k \<in> (\<Union>x \<in> set (place_entries ns kvs (p, i)). reach_bytes x)"
    then obtain q j e where mem: "(q, j, e) \<in> set (place_entries ns kvs (p, i))"
      and ks: "k \<in> reach_bytes (q, j, e)" by auto
    have "cur_off (p, i) \<le> cur_off (q, j)" using place_entries_ok[OF ok mem] by simp
    then show False using ks k by (simp add: reach_bytes_def cur_off_def)
  qed
  have 2: "k \<notin> (\<Union>q \<in> {p ..< fst c'}. header_bytes q)"
  proof
    assume "k \<in> (\<Union>q \<in> {p ..< fst c'}. header_bytes q)"
    then obtain q where q: "p \<le> q" "k \<in> header_bytes q" by auto
    then have "p < q" using h by (cases "q = p") auto
    then have "k < q * PAGE_SIZE" using cursor_below_next_page[OF ok k] by simp
    then show False using q(2) by (simp add: header_bytes_def)
  qed
  have 3: "k \<notin> (\<Union>q \<in> {p <.. fst c'}. bitmap_bytes q)"
  proof
    assume "k \<in> (\<Union>q \<in> {p <.. fst c'}. bitmap_bytes q)"
    then obtain q where q: "p < q" "k \<in> bitmap_bytes q" by auto
    then have "k < q * PAGE_SIZE" using cursor_below_next_page[OF ok k] by simp
    then show False using q(2) by (simp add: bitmap_bytes_def)
  qed
  show ?thesis using u 1 2 3 by blast
qed

lemma gen_namespaces_frame:
  assumes g: "gen_namespaces N m dat (b, p, i) = Inr (b', c')" and ok: "cur_ok (p, i)"
    and i: "i \<le> 125" and k: "k < cur_off (p, i)" and h: "k \<notin> header_bytes p"
  shows "b' ! k = b ! k"
proof -
  note u = gen_namespaces_untouched[OF g]
  note sup = gen_namespaces_supported[OF g]
  have 1: "k \<notin> (\<Union>x \<in> set (place_namespaces m dat (p, i)). reach_bytes x)"
  proof
    assume "k \<in> (\<Union>x \<in> set (place_namespaces m dat (p, i)). reach_bytes x)"
    then obtain q j e where mem: "(q, j, e) \<in> set (place_namespaces m dat (p, i))"
      and ks: "k \<in> reach_bytes (q, j, e)" by auto
    have "cur_off (p, i) \<le> cur_off (q, j)" using place_namespaces_ok[OF ok _ sup mem] i by simp
    then show False using ks k by (simp add: reach_bytes_def cur_off_def)
  qed
  have 2: "k \<notin> (\<Union>q \<in> {p ..< fst c'}. header_bytes q)"
  proof
    assume "k \<in> (\<Union>q \<in> {p ..< fst c'}. header_bytes q)"
    then obtain q where q: "p \<le> q" "k \<in> header_bytes q" by auto
    then have "p < q" using h by (cases "q = p") auto
    then have "k < q * PAGE_SIZE" using cursor_below_next_page[OF ok k] by simp
    then show False using q(2) by (simp add: header_bytes_def)
  qed
  have 3: "k \<notin> (\<Union>q \<in> {p <.. fst c'}. bitmap_bytes q)"
  proof
    assume "k \<in> (\<Union>q \<in> {p <.. fst c'}. bitmap_bytes q)"
    then obtain q where q: "p < q" "k \<in> bitmap_bytes q" by auto
    then have "k < q * PAGE_SIZE" using cursor_below_next_page[OF ok k] by simp
    then show False using q(2) by (simp add: bitmap_bytes_def)
  qed
  show ?thesis using u 1 2 3 by blast
qed

text \<open>The payload of a string that stays within its page is in the image.\<close>

lemma ceil32_covers: "L \<le> 32 * ceil32 L"
proof -
  have "\<not> ceil32 L < ceil32 L" by simp
  then show ?thesis unfolding ceil32_less by simp
qed

lemma step_buffer_payload:
  assumes wf: "wf_entry e" and fits: "entry_offset p i + entry_need e \<le> length b"
    and i1: "1 \<le> i" and fit: "i + e_span e \<le> 126" and str: "e_type e = TYPE_STR"
  shows "slice (step_buffer b (p, i) e) (entry_offset p i + 32)
           (entry_offset p i + 32 + length (e_data e)) = e_data e"
proof -
  let ?off = "entry_offset p i"
  let ?L = "length (e_data e)"
  have span: "e_span e = 1 + ceil32 ?L" using wf str by (simp add: wf_entry_def)
  have "slice (step_buffer b (p, i) e) (?off + 32) (?off + 32 + ?L)
        = slice (entry_body b ?off e) (?off + 32) (?off + 32 + ?L)"
  proof (rule slice_cong)
    show "length (step_buffer b (p, i) e) = length (entry_body b ?off e)"
      using length_step_buffer[OF wf fits] length_entry_body[OF wf fits] by simp
    fix k assume k: "?off + 32 \<le> k" "k < ?off + 32 + ?L"
    have lo: "?off \<le> k" using k(1) by simp
    have hi: "k < ?off + 32 * e_span e" using k(2) ceil32_covers[of ?L] by (simp add: span)
    note r = span_region[OF i1 fit lo hi]
    have "step_buffer b (p, i) e ! k = entry_written b ?off e ! k"
      using wf fits r(1) r(2) by (rule nth_step_buffer_entry)
    also have "\<dots> = entry_body b ?off e ! k"
    proof -
      have "?off + 4 + length (uint32_le (calculateCRC32 (crc_window (entry_body b ?off e) ?off)))
            \<le> length (entry_body b ?off e)"
        using length_entry_body[OF wf fits] fits entry_need_pos[OF wf] by (simp add: uint32_le_def)
      then show ?thesis
        unfolding entry_written_def Let_def using k(1)
        by (subst nth_overlay) (simp_all add: uint32_le_def)
    qed
    finally show "step_buffer b (p, i) e ! k = entry_body b ?off e ! k" .
  qed
  also have "\<dots> = e_data e" using entry_body_fields(7)[OF wf fits] str by simp
  finally show ?thesis .
qed

lemma gen_entries_payload:
  assumes "gen_entries N ns kvs (b, p, i) = Inr (b', c')" and "cur_ok (p, i)"
    and "(q, j, e) \<in> set (place_entries ns kvs (p, i))"
    and "j + e_span e \<le> 126" and "e_type e = TYPE_STR"
  shows "slice b' (entry_offset q j + 32) (entry_offset q j + 32 + length (e_data e)) = e_data e"
  using assms(1-3)
proof (induction kvs arbitrary: b p i)
  case Nil
  then show ?case by simp
next
  case (Cons kv kvs)
  obtain key v where kv: "kv = (key, v)" by (cases kv)
  from Cons.prems(1) obtain e1 where e1: "createEntry ns key v = Inr e1" and wf: "wf_entry e1"
    and fits: "entry_offset p i + entry_need e1 \<le> length b"
    and rest: "gen_entries N ns kvs (step_buffer b (p, i) e1, advance (p, i) (e_span e1)) = Inr (b', c')"
    unfolding kv by (rule gen_entries_ConsE)
  obtain p1 i1 where c1: "advance (p, i) (e_span e1) = (p1, i1)" by (cases "advance (p, i) (e_span e1)")
  let ?b1 = "step_buffer b (p, i) e1"
  let ?off = "entry_offset p i"
  note a = advance_ok[OF Cons.prems(2) wf_entry_span[OF wf], unfolded c1]
  note u = gen_entries_untouched[OF rest[unfolded c1]]
  from Cons.prems(3) e1 c1 consider "(q, j, e) = (p, i, e1)"
    | "(q, j, e) \<in> set (place_entries ns kvs (p1, i1))"
    by (auto simp: kv)
  then show ?case
  proof cases
    case 2
    show ?thesis using Cons.IH[OF rest[unfolded c1] a(1) 2] .
  next
    case 1
    then have same: "q = p" "j = i" "e = e1" by simp_all
    have i1: "1 \<le> i" using Cons.prems(2) by (simp add: cur_ok_def)
    have fit: "i + e_span e1 \<le> 126" and str: "e_type e1 = TYPE_STR"
      using assms(4,5) same by simp_all
    have span: "e_span e1 = 1 + ceil32 (length (e_data e1))" using wf str by (simp add: wf_entry_def)
    have "slice b' (?off + 32) (?off + 32 + length (e_data e1))
          = slice ?b1 (?off + 32) (?off + 32 + length (e_data e1))"
    proof (rule slice_cong)
      show "length b' = length ?b1" using u by simp
      fix k assume k: "?off + 32 \<le> k" "k < ?off + 32 + length (e_data e1)"
      have lo: "?off \<le> k" using k(1) by simp
      have hi: "k < ?off + 32 * e_span e1"
        using k(2) ceil32_covers[of "length (e_data e1)"] by (simp add: span)
      note r = span_region[OF i1 fit lo hi]
      show "b' ! k = ?b1 ! k"
        using rest[unfolded c1] a(1) r(3)[unfolded c1] r(1) by (rule gen_entries_frame)
    qed
    also have "\<dots> = e_data e1" using wf fits i1 fit str by (rule step_buffer_payload)
    finally show ?thesis unfolding same .
  qed
qed

lemma place_entries_end_span:
  assumes "cur_ok c" and "(q, j, e) \<in> set (place_entries ns kvs c)" and "j + e_span e \<le> 126"
  shows "entry_offset q j + 32 * e_span e \<le> cur_off (end_entries ns kvs c)"
  using assms(1,2)
proof (induction kvs arbitrary: c)
  case Nil
  then show ?case by simp
next
  case (Cons kv kvs)
  obtain key v where kv: "kv = (key, v)" by (cases kv)
  obtain p i where c: "c = (p, i)" by (cases c)
  from Cons.prems(2) obtain e1 where e1: "createEntry ns key v = Inr e1"
    by (cases "createEntry ns key v") (auto simp: kv)
  let ?c1 = "advance (p, i) (e_span e1)"
  have ok1: "cur_ok ?c1"
    using Cons.prems(1)[unfolded c] wf_entry_span[OF createEntry_wf[OF e1]] by (rule advance_ok(1))
  have ee: "end_entries ns (kv # kvs) c = end_entries ns kvs ?c1" by (simp add: kv c e1)
  from Cons.prems(2) consider "(q, j, e) = (p, i, e1)"
    | "(q, j, e) \<in> set (place_entries ns kvs ?c1)" by (auto simp: kv c e1)
  then show ?case
  proof cases
    case 1
    then have same: "q = p" "j = i" "e = e1" by simp_all
    have "entry_offset p i + 32 * e_span e1 \<le> cur_off ?c1"
      using assms(3) same by (simp add: cur_off_def entry_offset_def)
    also have "\<dots> \<le> cur_off (end_entries ns kvs ?c1)" using end_entries_ok[OF ok1] by simp
    finally show ?thesis unfolding ee same .
  next
    case 2
    show ?thesis unfolding ee using ok1 2 by (rule Cons.IH)
  qed
qed

lemma place_namespaces_end_span:
  assumes "cur_ok c" and "snd c \<le> 125" and "supported_data dat"
    and "(q, j, e) \<in> set (place_namespaces m dat c)" and "j + e_span e \<le> 126"
  shows "entry_offset q j + 32 * e_span e \<le> cur_off (end_namespaces m dat c)"
  using assms(1-4)
proof (induction dat arbitrary: c)
  case Nil
  then show ?case by simp
next
  case (Cons nse dat)
  obtain name kvs where nse: "nse = (name, kvs)" by (cases nse)
  have sup: "supported_data dat" and supk: "\<forall>(key, v) \<in> set kvs. supported v"
    using Cons.prems(3) by (auto simp: supported_data_def nse)
  show ?case
  proof (cases "kvs = []")
    case True
    then show ?thesis using Cons.IH[OF Cons.prems(1,2) sup] Cons.prems(4) by (simp add: nse)
  next
    case False
    obtain p i where c: "c = (p, i)" by (cases c)
    let ?n = "ns_lookup m name"
    let ?c1 = "(p, i + 1)"
    let ?c2 = "end_entries ?n kvs ?c1"
    have ok1: "cur_ok ?c1" using Cons.prems(1,2) by (simp add: cur_ok_def c)
    note e2 = end_entries_nonempty[OF ok1 False supk, of ?n]
    have ok2: "cur_ok ?c2" using end_entries_ok[OF ok1] by simp
    have en: "end_namespaces m (nse # dat) c = end_namespaces m dat ?c2"
      using False by (simp add: nse c)
    note e3 = end_namespaces_ok[OF ok2 e2(1) sup, of m]
    from Cons.prems(4) False consider "(q, j, e) = (p, i, namespace_entry name ?n)"
      | "(q, j, e) \<in> set (place_entries ?n kvs ?c1)"
      | "(q, j, e) \<in> set (place_namespaces m dat ?c2)"
      by (auto simp: nse c)
    then show ?thesis
    proof cases
      case 1
      then have "entry_offset q j + 32 * e_span e = cur_off ?c1"
        by (simp add: namespace_entry_def cur_off_def entry_offset_def)
      also have "\<dots> \<le> cur_off ?c2" using end_entries_ok[OF ok1] by simp
      also have "\<dots> \<le> cur_off (end_namespaces m dat ?c2)" using e3 by simp
      finally show ?thesis unfolding en .
    next
      case 2
      have "entry_offset q j + 32 * e_span e \<le> cur_off ?c2"
        using ok1 2 assms(5) by (rule place_entries_end_span)
      also have "\<dots> \<le> cur_off (end_namespaces m dat ?c2)" using e3 by simp
      finally show ?thesis unfolding en .
    next
      case 3
      show ?thesis unfolding en using ok2 e2(1) sup 3 by (rule Cons.IH)
    qed
  qed
qed

lemma gen_namespaces_payload:
  assumes "gen_namespaces N m dat (b, p, i) = Inr (b', c')" and "cur_ok (p, i)" and "i \<le> 125"
    and "(q, j, e) \<in> set (place_namespaces m dat (p, i))"
    and "j + e_span e \<le> 126" and "e_type e = TYPE_STR"
  shows "slice b' (entry_offset q j + 32) (entry_offset q j + 32 + length (e_data e)) = e_data e"
  using assms(1-4)
proof (induction dat arbitrary: b p i)
  case Nil
  then show ?case by simp
next
  case (Cons nse dat)
  obtain name kvs where nse: "nse = (name, kvs)" by (cases nse)
  show ?case
  proof (cases "kvs = []")
    case True
    then show ?thesis using Cons.IH[OF _ Cons.prems(2,3)] Cons.prems(1,4) by (simp add: nse)
  next
    case False
    let ?n = "ns_lookup m name"
    let ?e = "namespace_entry name ?n"
    let ?b1 = "entry_written b (entry_offset p i) ?e"
    from Cons.prems(1) False obtain st1 where fits: "entry_offset p i + entry_need (namespace_entry name (ns_lookup m name)) \<le> length b"
      and ents: "gen_entries N ?n kvs (?b1, p, i + 1) = Inr st1"
      and rest: "gen_namespaces N m dat st1 = Inr (b', c')"
      unfolding nse by (rule gen_namespaces_ConsE)
    obtain b2 p2 i2 where st1: "st1 = (b2, p2, i2)" by (cases st1)
    note e1 = gen_entries_untouched[OF ents[unfolded st1]]
    have c2: "(p2, i2) = end_entries ?n kvs (p, i + 1)" using e1 by simp
    have ok1: "cur_ok (p, i + 1)" using Cons.prems(2,3) by (simp add: cur_ok_def)
    have supk: "\<forall>(key, v) \<in> set kvs. supported v"
      using gen_entries_supported[OF ents[unfolded st1]] .
    note n2 = end_entries_nonempty[OF ok1 False supk, of ?n, folded c2]
    have ok2: "cur_ok (p2, i2)" using end_entries_ok[OF ok1, of ?n kvs] c2 by simp
    have i2: "i2 \<le> 125" using n2(1) by simp
    from Cons.prems(4) False consider "(q, j, e) = (p, i, ?e)"
      | "(q, j, e) \<in> set (place_entries ?n kvs (p, i + 1))"
      | "(q, j, e) \<in> set (place_namespaces m dat (p2, i2))"
      by (auto simp: nse c2)
    then show ?thesis
    proof cases
      case 1
      then show ?thesis using assms(6) by (simp add: namespace_entry_def)
    next
      case 2
      note o = place_entries_ok[OF ok1 2]
      have j1: "1 \<le> j" using o by (simp add: cur_ok_def)
      have wf: "wf_entry e" using o by simp
      have span: "e_span e = 1 + ceil32 (length (e_data e))"
        using wf assms(6) by (simp add: wf_entry_def)
      have endle: "entry_offset q j + 32 * e_span e \<le> cur_off (p2, i2)"
        unfolding c2 using ok1 2 assms(5) by (rule place_entries_end_span)
      have "slice b' (entry_offset q j + 32) (entry_offset q j + 32 + length (e_data e))
            = slice b2 (entry_offset q j + 32) (entry_offset q j + 32 + length (e_data e))"
      proof (rule slice_cong)
        show "length b' = length b2" using gen_namespaces_untouched[OF rest[unfolded st1]] by simp
        fix k assume k: "entry_offset q j + 32 \<le> k" "k < entry_offset q j + 32 + length (e_data e)"
        have lo: "entry_offset q j \<le> k" using k(1) by simp
        have hi: "k < entry_offset q j + 32 * e_span e"
          using k(2) ceil32_covers[of "length (e_data e)"] by (simp add: span)
        note r = span_region[OF j1 assms(5) lo hi]
        have "k < cur_off (p2, i2)" using hi endle by simp
        then show "b' ! k = b2 ! k"
          using rest[unfolded st1] ok2 i2 r(1) by (intro gen_namespaces_frame)
      qed
      also have "\<dots> = e_data e"
        using ents[unfolded st1] ok1 2 assms(5,6) by (rule gen_entries_payload)
      finally show ?thesis .
    next
      case 3
      show ?thesis using rest[unfolded st1] ok2 i2 3 by (rule Cons.IH)
    qed
  qed
qed

text \<open>Every page up to the last cursor is sealed as \<open>ACTIVE\<close>, and the image is erased beyond the last cursor.\<close>

lemma header_written_state:
  assumes "p * PAGE_SIZE + 32 \<le> length b"
  shows "slice (header_written b p) (p * PAGE_SIZE) (p * PAGE_SIZE + 4) = uint32_le PAGE_STATE_ACTIVE"
proof -
  let ?off = "p * PAGE_SIZE"
  let ?c1 = "overlay b ?off (uint32_le PAGE_STATE_ACTIVE)"
  let ?c2 = "overlay ?c1 (?off + 4) (uint32_le (of_nat p))"
  let ?c3 = "overlay ?c2 (?off + 8) (uint32_le 0xFFFFFFFF)"
  let ?c4 = "overlay ?c3 (?off + 28) (uint32_le (calculateCRC32 (slice ?c3 ?off (?off + 28))))"
  have l1: "length ?c1 = length b" using assms by simp
  have l2: "length ?c2 = length b" using assms l1 by simp
  have l3: "length ?c3 = length b" using assms l2 by simp
  have "slice ?c4 ?off (?off + 4) = slice ?c3 ?off (?off + 4)"
    using assms l3 by (intro slice_overlay_miss) simp_all
  also have "\<dots> = slice ?c2 ?off (?off + 4)"
    using assms l2 by (intro slice_overlay_miss) simp_all
  also have "\<dots> = slice ?c1 ?off (?off + 4)"
    using assms l1 by (intro slice_overlay_miss) simp_all
  also have "\<dots> = uint32_le PAGE_STATE_ACTIVE"
    using assms by (intro slice_overlay_hit) simp_all
  finally show ?thesis by (simp add: header_written_def Let_def)
qed

lemma gen_entries_headers:
  assumes "gen_entries N ns kvs (b, p, i) = Inr (b', c')" and "cur_ok (p, i)"
    and "p \<le> q" and "q < fst c'"
  shows "slice b' (q * PAGE_SIZE) (q * PAGE_SIZE + 4) = uint32_le PAGE_STATE_ACTIVE"
  using assms(1-3)
proof (induction kvs arbitrary: b p i)
  case Nil
  then show ?case using assms(4) by auto
next
  case (Cons kv kvs)
  obtain key v where kv: "kv = (key, v)" by (cases kv)
  from Cons.prems(1) obtain e1 where e1: "createEntry ns key v = Inr e1" and wf: "wf_entry e1"
    and fits: "entry_offset p i + entry_need e1 \<le> length b"
    and rest: "gen_entries N ns kvs (step_buffer b (p, i) e1, advance (p, i) (e_span e1)) = Inr (b', c')"
    unfolding kv by (rule gen_entries_ConsE)
  obtain p1 i1 where c1: "advance (p, i) (e_span e1) = (p1, i1)" by (cases "advance (p, i) (e_span e1)")
  let ?b1 = "step_buffer b (p, i) e1"
  let ?off = "entry_offset p i"
  let ?bw = "entry_written b ?off e1"
  note a = advance_ok[OF Cons.prems(2) wf_entry_span[OF wf], unfolded c1]
  note u = gen_entries_untouched[OF rest[unfolded c1]]
  show ?case
  proof (cases "q < p1")
    case False
    then have "p1 \<le> q" by simp
    with rest[unfolded c1] a(1) show ?thesis by (rule Cons.IH)
  next
    case True
    have full: "i + e_span e1 \<ge> 126" and p1: "p1 = p + 1" and i1: "i1 = 1"
      using c1 True Cons.prems(3) by (auto split: if_splits)
    have qp: "q = p" using True Cons.prems(3) p1 by simp
    have lw: "length ?bw = length b" using wf fits by (rule length_entry_written)
    have hdr: "p * PAGE_SIZE + 32 \<le> length ?bw"
      using fits entry_offset_page[of p i] lw by simp
    have b1: "?b1 = write_bitmap (header_written ?bw p) (p + 1)"
      using full by (simp add: step_buffer_def Let_def)
    have "slice b' (p * PAGE_SIZE) (p * PAGE_SIZE + 4) = slice (header_written ?bw p) (p * PAGE_SIZE) (p * PAGE_SIZE + 4)"
    proof (rule slice_cong)
      show "length b' = length (header_written ?bw p)" using u hdr unfolding b1 by simp
      fix k assume k: "p * PAGE_SIZE \<le> k" "k < p * PAGE_SIZE + 4"
      have "k < cur_off (p1, i1)" using k(2) by (simp add: p1 i1 cur_off_def entry_offset_def)
      moreover have "k \<notin> header_bytes p1" using k(2) by (simp add: p1 header_bytes_def)
      ultimately have "b' ! k = ?b1 ! k"
        using rest[unfolded c1] a(1) by (intro gen_entries_frame)
      also have "\<dots> = header_written ?bw p ! k"
        unfolding b1 using k(2) by (intro nth_write_bitmap_outside) simp_all
      finally show "b' ! k = header_written ?bw p ! k" .
    qed
    also have "\<dots> = uint32_le PAGE_STATE_ACTIVE" using hdr by (rule header_written_state)
    finally show ?thesis unfolding qp .
  qed
qed

lemma gen_namespaces_headers:
  assumes "gen_namespaces N m dat (b, p, i) = Inr (b', c')" and "cur_ok (p, i)" and "i \<le> 125"
    and "p \<le> q" and "q < fst c'"
  shows "slice b' (q * PAGE_SIZE) (q * PAGE_SIZE + 4) = uint32_le PAGE_STATE_ACTIVE"
  using assms(1-4)
proof (induction dat arbitrary: b p i)
  case Nil
  then show ?case using assms(5) by auto
next
  case (Cons nse dat)
  obtain name kvs where nse: "nse = (name, kvs)" by (cases nse)
  show ?case
  proof (cases "kvs = []")
    case True
    then show ?thesis using Cons.IH[OF _ Cons.prems(2,3,4)] Cons.prems(1) by (simp add: nse)
  next
    case False
    let ?n = "ns_lookup m name"
    let ?e = "namespace_entry name ?n"
    let ?b1 = "entry_written b (entry_offset p i) ?e"
    from Cons.prems(1) False obtain st1 where fits: "entry_offset p i + entry_need (namespace_entry name (ns_lookup m name)) \<le> length b"
      and ents: "gen_entries N ?n kvs (?b1, p, i + 1) = Inr st1"
      and rest: "gen_namespaces N m dat st1 = Inr (b', c')"
      unfolding nse by (rule gen_namespaces_ConsE)
    obtain b2 p2 i2 where st1: "st1 = (b2, p2, i2)" by (cases st1)
    note e1 = gen_entries_untouched[OF ents[unfolded st1]]
    have c2: "(p2, i2) = end_entries ?n kvs (p, i + 1)" using e1 by simp
    have ok1: "cur_ok (p, i + 1)" using Cons.prems(2,3) by (simp add: cur_ok_def)
    have supk: "\<forall>(key, v) \<in> set kvs. supported v"
      using gen_entries_supported[OF ents[unfolded st1]] .
    note n2 = end_entries_nonempty[OF ok1 False supk, of ?n, folded c2]
    have ok2: "cur_ok (p2, i2)" using end_entries_ok[OF ok1, of ?n kvs] c2 by simp
    have i2: "i2 \<le> 125" using n2(1) by simp
    show ?thesis
    proof (cases "q < p2")
      case False
      then have "p2 \<le> q" by simp
      with rest[unfolded st1] ok2 i2 show ?thesis by (rule Cons.IH)
    next
      case True
      have "slice b' (q * PAGE_SIZE) (q * PAGE_SIZE + 4) = slice b2 (q * PAGE_SIZE) (q * PAGE_SIZE + 4)"
      proof (rule slice_cong)
        show "length b' = length b2" using gen_namespaces_untouched[OF rest[unfolded st1]] by simp
        fix k assume k: "q * PAGE_SIZE \<le> k" "k < q * PAGE_SIZE + 4"
        have "(q + 1) * 4096 \<le> p2 * 4096" using True by simp
        then have kp: "k < p2 * 4096" using k(2) by simp
        then have "k < cur_off (p2, i2)" by (simp add: cur_off_def entry_offset_def)
        moreover have "k \<notin> header_bytes p2" using kp by (simp add: header_bytes_def)
        ultimately show "b' ! k = b2 ! k"
          using rest[unfolded st1] ok2 i2 by (intro gen_namespaces_frame)
      qed
      also have "\<dots> = uint32_le PAGE_STATE_ACTIVE"
        using ents[unfolded st1] ok1 Cons.prems(4) by (rule gen_entries_headers) (use True in simp)
      finally show ?thesis .
    qed
  qed
qed

lemma generate_headers:
  assumes "generate dat partitionSize = Inr b" and "q \<le> fst (last_cursor dat)"
  shows "slice b (q * PAGE_SIZE) (q * PAGE_SIZE + 4) = uint32_le PAGE_STATE_ACTIVE"
proof -
  let ?P = "fst (last_cursor dat)"
  from assms(1) obtain b1 where
    gn: "gen_namespaces (partitionSize div PAGE_SIZE) (build_namespaceMap dat 0 Map.empty) dat
       (write_bitmap (replicate partitionSize 0xFF) 0, 0, 1) = Inr (b1, last_cursor dat)"
    and l1: "length b1 = partitionSize" and hdr: "?P * PAGE_SIZE + 32 \<le> partitionSize"
    and b: "b = header_written b1 ?P"
    by (rule generate_unfold)
  show ?thesis
  proof (cases "q = ?P")
    case True
    show ?thesis unfolding b True using hdr l1 by (intro header_written_state) simp
  next
    case False
    then have lt: "q < ?P" using assms(2) by simp
    have "slice b (q * PAGE_SIZE) (q * PAGE_SIZE + 4) = slice b1 (q * PAGE_SIZE) (q * PAGE_SIZE + 4)"
    proof (rule slice_cong)
      show "length b = length b1" unfolding b using hdr l1 by simp
      fix k assume k: "q * PAGE_SIZE \<le> k" "k < q * PAGE_SIZE + 4"
      have "(q + 1) * 4096 \<le> ?P * 4096" using lt by simp
      then have "k \<notin> header_bytes ?P" using k(2) by (simp add: header_bytes_def)
      then show "b ! k = b1 ! k"
        unfolding b using hdr l1 by (intro nth_header_written_outside) simp_all
    qed
    also have "\<dots> = uint32_le PAGE_STATE_ACTIVE"
      using gn _ _ _ lt by (rule gen_namespaces_headers) (simp_all add: cur_ok_def)
    finally show ?thesis .
  qed
qed

lemma generate_payload:
  assumes "generate dat partitionSize = Inr b" and "(p, i, e) \<in> set (placements dat)"
    and "i + e_span e \<le> 126" and "e_type e = TYPE_STR"
  shows "slice b (entry_offset p i + 32) (entry_offset p i + 32 + length (e_data e)) = e_data e"
proof -
  let ?P = "fst (last_cursor dat)"
  let ?m = "build_namespaceMap dat 0 Map.empty"
  from assms(1) obtain b1 where
    gn: "gen_namespaces (partitionSize div PAGE_SIZE) ?m dat
       (write_bitmap (replicate partitionSize 0xFF) 0, 0, 1) = Inr (b1, last_cursor dat)"
    and l1: "length b1 = partitionSize" and hdr: "?P * PAGE_SIZE + 32 \<le> partitionSize"
    and b: "b = header_written b1 ?P"
    by (rule generate_unfold)
  have ok0: "cur_ok (0, 1)" by (simp add: cur_ok_def)
  have pl: "(p, i, e) \<in> set (place_namespaces ?m dat (0, 1))"
    using assms(2) by (simp add: placements_def)
  note o = place_namespaces_ok[OF ok0 _ gen_namespaces_supported[OF gn] pl]
  have i1: "1 \<le> i" and wf: "wf_entry e" using o by (simp_all add: cur_ok_def)
  have span: "e_span e = 1 + ceil32 (length (e_data e))" using wf assms(4) by (simp add: wf_entry_def)
  have "slice b (entry_offset p i + 32) (entry_offset p i + 32 + length (e_data e))
        = slice b1 (entry_offset p i + 32) (entry_offset p i + 32 + length (e_data e))"
  proof (rule slice_cong)
    show "length b = length b1" unfolding b using hdr l1 by simp
    fix k assume k: "entry_offset p i + 32 \<le> k" "k < entry_offset p i + 32 + length (e_data e)"
    have lo: "entry_offset p i \<le> k" using k(1) by simp
    have hi: "k < entry_offset p i + 32 * e_span e"
      using k(2) ceil32_covers[of "length (e_data e)"] by (simp add: span)
    note r = span_region[OF i1 assms(3) lo hi]
    show "b ! k = b1 ! k"
      unfolding b using hdr l1 r(1) by (intro nth_header_written_outside) simp_all
  qed
  also have "\<dots> = e_data e"
    using gn ok0 _ pl assms(3,4) by (rule gen_namespaces_payload) simp
  finally show ?thesis .
qed

lemma place_namespaces_key:
  assumes "(q, j, e) \<in> set (place_namespaces m dat c)"
  shows "e_key e \<in> fst ` set dat \<or> (\<exists>(name, kvs) \<in> set dat. e_key e \<in> fst ` set kvs)"
  using assms
proof (induction dat arbitrary: c)
  case Nil
  then show ?case by simp
next
  case (Cons nse dat)
  obtain name kvs where nse: "nse = (name, kvs)" by (cases nse)
  show ?case
  proof (cases "kvs = []")
    case True
    then show ?thesis using Cons.IH[of c] Cons.prems by (auto simp: nse)
  next
    case False
    let ?n = "ns_lookup m name"
    from Cons.prems False consider "(q, j, e) = (fst c, snd c, namespace_entry name ?n)"
      | "(q, j, e) \<in> set (place_entries ?n kvs (fst c, snd c + 1))"
      | "(q, j, e) \<in> set (place_namespaces m dat (end_entries ?n kvs (fst c, snd c + 1)))"
      by (auto simp: nse)
    then show ?thesis
    proof cases
      case 1
      then show ?thesis by (simp add: nse namespace_entry_def)
    next
      case 2
      then obtain key v where kv: "(key, v) \<in> set kvs" "createEntry ?n key v = Inr e"
        using place_entries_created by blast
      then have "e_key e = key"
        by (auto simp: createEntry_def bindE_def Let_def split: sum.splits prod.splits)
      then show ?thesis using kv(1) by (force simp: nse)
    next
      case 3
      then show ?thesis using Cons.IH[OF 3] by (auto simp: nse)
    qed
  qed
qed

lemma generate_beyond:
  assumes "generate dat partitionSize = Inr b" and "fits_pages dat"
    and fk: "\<And>p i e. (p, i, e) \<in> set (placements dat) \<Longrightarrow> length (key_field (e_key e)) = 16"
    and "cur_off (last_cursor dat) \<le> k" and "k < partitionSize"
  shows "b ! k = 0xFF"
  using assms(1,5)
proof (rule generate_untouched)
  let ?m = "build_namespaceMap dat 0 Map.empty"
  have ok0: "cur_ok (0, 1)" by (simp add: cur_ok_def)
  note sup = generate_supported[OF assms(1)]
  have okl: "cur_ok (last_cursor dat)"
    using end_namespaces_ok[OF ok0 _ sup, of ?m] by (simp add: last_cursor_def)
  have 1: "k \<notin> reach_bytes x" if x: "x \<in> set (placements dat)" for x
  proof -
    obtain q j e where xe: "x = (q, j, e)" by (cases x)
    have fit: "j + e_span e \<le> 126" using assms(2) x by (auto simp: fits_pages_def xe)
    have pl: "(q, j, e) \<in> set (place_namespaces ?m dat (0, 1))"
      using x by (simp add: xe placements_def)
    have "1 \<le> e_span e"
      using place_namespaces_ok[OF ok0 _ sup pl] wf_entry_span by simp
    then have reach: "entry_reach e = 32 * e_span e"
      using fk[OF x[unfolded xe]] by (simp add: entry_reach_def)
    have "entry_offset q j + 32 * e_span e \<le> cur_off (last_cursor dat)"
      unfolding last_cursor_def using ok0 _ sup pl fit
      by (rule place_namespaces_end_span) simp
    then show ?thesis using assms(4) by (simp add: reach_bytes_def xe reach)
  qed
  have 2: "k \<notin> header_bytes q \<union> bitmap_bytes q" if q: "q \<le> fst (last_cursor dat)" for q
  proof -
    have "fst (last_cursor dat) * 4096 + 64 \<le> cur_off (last_cursor dat)"
      using okl by (simp add: cur_ok_def cur_off_def entry_offset_def)
    moreover have "q * 4096 \<le> fst (last_cursor dat) * 4096" using q by simp
    ultimately show ?thesis using assms(4) by (simp add: header_bytes_def bitmap_bytes_def)
  qed
  show "k \<notin> touched dat" using 1 2 by (auto simp: touched_def)
qed

lemma generate_image:
  assumes "generate dat partitionSize = Inr b" and "32 dvd partitionSize" and "fits_pages dat"
  shows "image_holds b (placements dat)"
  unfolding image_holds_def
proof (intro ballI)
  fix x assume x: "x \<in> set (placements dat)"
  obtain p i e where xe: "x = (p, i, e)" by (cases x)
  have fit: "i + e_span e \<le> 126" using assms(3) x by (auto simp: fits_pages_def xe)
  have "slot_holds b (entry_offset p i) e"
    using assms(1,2) x[unfolded xe] by (rule generate_slots)
  moreover have "e_type e = TYPE_STR \<longrightarrow>
      slice b (entry_offset p i + 32) (entry_offset p i + 32 + length (e_data e)) = e_data e"
    using generate_payload[OF assms(1) x[unfolded xe] fit] by simp
  ultimately show "case x of (p, i, e) \<Rightarrow>
        slot_holds b (entry_offset p i) e \<and> i + e_span e \<le> ENTRIES_PER_PAGE \<and>
        (e_type e = TYPE_STR \<longrightarrow>
           slice b (entry_offset p i + 32) (entry_offset p i + 32 + length (e_data e)) = e_data e)"
    using fit by (simp add: xe)
qed

text \<open>What \<open>parse\<close> returns on the image of a well-formed input.\<close>

lemma parse_generate:
  assumes wf: "well_formed dat" and fits: "fits_pages dat" and dv: "PAGE_SIZE dvd partitionSize"
    and gen: "generate dat partitionSize = Inr b"
  shows "parse b = Some (Inr (decoded dat))"
proof -
  let ?m = "build_namespaceMap dat 0 Map.empty"
  let ?N = "partitionSize div PAGE_SIZE"
  obtain P I where lc: "last_cursor dat = (P, I)" by (cases "last_cursor dat")
  have lb: "length b = partitionSize" using gen by (rule generate_length)
  from dv obtain n where sz: "partitionSize = 4096 * n" by (auto simp: dvd_def)
  have N: "?N = n" by (simp add: sz)
  from gen obtain b1 where "fst (last_cursor dat) * PAGE_SIZE + 32 \<le> partitionSize"
    by (rule generate_unfold)
  then have Pn: "P < n" by (simp add: lc sz)
  have ok0: "cur_ok (0, 1)" by (simp add: cur_ok_def)
  note sup = generate_supported[OF gen]
  have okl: "cur_ok (P, I)" "I \<le> 125"
    using end_namespaces_ok[OF ok0 _ sup, of ?m] lc by (simp_all add: last_cursor_def)
  have act: "active_pages b ?N P"
    unfolding active_pages_def
  proof (intro allI impI conjI)
    fix q assume q: "q \<le> P"
    then show "q < ?N" using Pn N by simp
    have "(q + 1) * 4096 \<le> n * 4096" using q Pn by simp
    then show "q * PAGE_SIZE + 4 \<le> length b" by (simp add: lb sz)
    show "slice b (q * PAGE_SIZE) (q * PAGE_SIZE + 4) = uint32_le PAGE_STATE_ACTIVE"
      using gen by (rule generate_headers) (simp add: lc q)
  qed
  have "32 dvd partitionSize" by (simp add: sz)
  with gen have img: "image_holds b (place_namespaces ?m dat (0, 1))"
    using fits unfolding placements_def[symmetric] by (rule generate_image)
  have good: "\<forall>(name, kvs) \<in> set dat. good_name name \<and> distinct (map fst kvs) \<and>
           (\<forall>(key, v) \<in> set kvs. supported v \<and> good_name key \<and> good_value v)"
    using wf sup unfolding well_formed_def supported_data_def by fastforce
  have dist: "distinct (map fst dat)" and cnt: "0 + length (nonempty_namespaces dat) \<le> 254"
    using wf by (simp_all add: well_formed_def)
  have idx: "\<forall>k < length (nonempty_namespaces dat).
           ns_lookup ?m (fst (nonempty_namespaces dat ! k)) = 0 + k + 1"
  proof (intro allI impI)
    fix k assume k: "k < length (nonempty_namespaces dat)"
    then have "nonempty_namespaces dat ! k \<in> set dat"
      using nth_mem[OF k] by (simp add: nonempty_namespaces_def)
    then have "good_name (fst (nonempty_namespaces dat ! k))" using good by auto
    then have "fst (nonempty_namespaces dat ! k) \<noteq> ''__proto__''"
      by (auto simp: good_name_def inherited_names_def)
    then show "ns_lookup ?m (fst (nonempty_namespaces dat ! k)) = 0 + k + 1"
      using ns_lookup_nth[OF dist k, of 0 Map.empty] by simp
  qed
  have fk: "length (key_field (e_key e)) = 16" if "(p, i, e) \<in> set (placements dat)" for p i e
  proof -
    have "e_key e \<in> fst ` set dat \<or> (\<exists>(name, kvs) \<in> set dat. e_key e \<in> fst ` set kvs)"
      using that unfolding placements_def by (rule place_namespaces_key)
    then have "good_name (e_key e)" using good by fastforce
    then show ?thesis using key_field_take[of "e_key e"] key_field_16[of "e_key e"]
      by (metis length_take min.absorb2)
  qed
  have pg: "fst (end_namespaces ?m dat (0, 1)) \<le> P" using lc by (simp add: last_cursor_def)
  have "\<exists>nsmap'. parse_from b ?N (0, 1) ([], Map.empty)
           = parse_from b ?N (end_namespaces ?m dat (0, 1)) ([] @ decoded dat, nsmap')"
    using _ img good dist _ idx cnt pg act
    by (rule walk_namespaces) simp_all
  then obtain nsmap' where walk: "parse_from b ?N (0, 1) ([], Map.empty)
           = parse_from b ?N (P, I) (decoded dat, nsmap')"
    using lc by (auto simp: last_cursor_def)
  have free: "parse_entries b (P * PAGE_SIZE) I (decoded dat, nsmap') = Some (Inr (decoded dat, nsmap'))"
  proof (rule parse_entries_free, intro allI impI conjI)
    fix j assume j: "I \<le> j \<and> j < 126"
    have "(P + 1) * 4096 \<le> n * 4096" using Pn by simp
    then show lt: "entry_offset P j < length b" using j by (simp add: entry_offset_def lb sz)
    have co: "cur_off (last_cursor dat) \<le> entry_offset P j"
      using j by (simp add: lc cur_off_def entry_offset_def)
    show "b ! entry_offset P j = 0xFF"
      using gen fits fk co lt[unfolded lb] by (rule generate_beyond)
  qed
  have empty: "parse_pages b [P + 1 ..< ?N] (decoded dat, nsmap') = Some (Inr (decoded dat, nsmap'))"
  proof (rule parse_pages_empty, intro ballI allI impI conjI)
    fix q assume "q \<in> set [P + 1 ..< ?N]"
    then have q: "P < q" "q < n" using N by simp_all
    have qn: "(q + 1) * 4096 \<le> n * 4096" using q by simp
    then show "q * PAGE_SIZE + 4 \<le> length b" by (simp add: lb sz)
    fix t :: nat assume t: "t < 4"
    have "(P + 1) * 4096 \<le> q * 4096" using q by simp
    then have "cur_off (last_cursor dat) \<le> q * PAGE_SIZE + t"
      using okl by (simp add: lc cur_ok_def cur_off_def entry_offset_def)
    moreover have "q * PAGE_SIZE + t < partitionSize" using qn t by (simp add: sz)
    ultimately show "b ! (q * PAGE_SIZE + t) = 0xFF"
      using gen fits fk by (intro generate_beyond)
  qed
  have tail: "parse_from b ?N (P, I) (decoded dat, nsmap') = Some (Inr (decoded dat, nsmap'))"
    unfolding parse_from_pair free using empty by simp
  have "parse_pages b [0 ..< ?N] ([], Map.empty) = parse_from b ?N (0, 1) ([], Map.empty)"
    using act by (rule parse_pages_active) simp
  then show ?thesis unfolding parse_def Let_def lb walk tail by simp
qed

lemma decoded_exact:
  assumes "exact_input dat"
  shows "decoded dat = dat"
proof -
  have ne: "nonempty_namespaces dat = dat"
    using assms unfolding nonempty_namespaces_def exact_input_def by (intro filter_True) auto
  have "map (\<lambda>(name, kvs). (name, decoded_entries kvs)) dat = dat"
  proof (rule map_idI)
    fix x assume x: "x \<in> set dat"
    obtain name kvs where xe: "x = (name, kvs)" by (cases x)
    have "decoded_entries kvs = kvs"
      unfolding decoded_entries_def
    proof (rule map_idI)
      fix y assume y: "y \<in> set kvs"
      obtain key v where ye: "y = (key, v)" by (cases y)
      have "case v of JNumber n \<Rightarrow> 0 \<le> n \<and> n < 2 ^ 32 | _ \<Rightarrow> True"
        using assms x y unfolding exact_input_def xe ye by fastforce
      then have "decoded_value v = v" by (cases v) (simp_all add: decoded_value_def)
      then show "(case y of (key, v) \<Rightarrow> (key, decoded_value v)) = y" by (simp add: ye)
    qed
    then show "(case x of (name, kvs) \<Rightarrow> (name, decoded_entries kvs)) = x" by (simp add: xe)
  qed
  then show ?thesis by (simp add: decoded_def ne)
qed

text \<open>The bytes of a key that \<open>writeEntry\<close> stores beyond the payload of a number.\<close>

lemma nth_entry_written_key:
  assumes wf: "wf_entry e" and fits: "off + entry_need e \<le> length b"
    and ty: "\<not> (e_type e = TYPE_STR \<or> e_type e = TYPE_BLOB)"
    and lo: "off + 24 + length (e_data e) \<le> k" and hi: "k < off + 8 + length (key_field (e_key e))"
  shows "entry_written b off e ! k = key_field (e_key e) ! (k - (off + 8))"
proof -
  note nd = entry_needD[OF fits]
  let ?h = "overlay b off [of_nat (e_namespace e), e_type e, of_nat (e_span e), 0xFF]"
  let ?c = "overlay ?h (off + 8) (key_field (e_key e))"
  have lh: "length ?h = length b" using nd by simp
  have lc: "length ?c = length b" using nd lh by simp
  have dl: "off + 24 + length (e_data e) \<le> length b"
    using nd ty by (simp add: entry_need_def)
  have body: "entry_body b off e = overlay ?c (off + 24) (e_data e)"
    using ty by (simp add: entry_body_def Let_def)
  have "entry_written b off e ! k = entry_body b off e ! k"
    using wf fits lo nd by (simp add: entry_written_def Let_def nth_overlay length_entry_body)
  also have "\<dots> = ?c ! k"
    unfolding body using lo dl lc by (simp add: nth_overlay)
  also have "\<dots> = key_field (e_key e) ! (k - (off + 8))"
    using lo hi nd lh by (simp add: nth_overlay)
  finally show ?thesis .
qed

lemma length_concat_replicate: "length (concat (replicate n xs)) = n * length xs"
  by (induction n) simp_all

lemma nth_concat_replicate:
  "k < n * length xs \<Longrightarrow> concat (replicate n xs) ! k = xs ! (k mod length xs)"
proof (induction n arbitrary: k)
  case 0
  then show ?case by simp
next
  case (Suc n)
  show ?case
  proof (cases "k < length xs")
    case True
    then show ?thesis by (simp add: nth_append)
  next
    case False
    then have "k - length xs < n * length xs" using Suc.prems by simp
    from Suc.IH[OF this] False show ?thesis
      by (simp add: nth_append le_mod_geq)
  qed
qed

section \<open>The claims\<close>

text \<open>
  C5. The buffer that \<open>generate\<close> returns has the requested length, but a byte outside
  the page headers, the bitmap slots and the slots of the entries is not always the erased
  byte. For \<open>{config: {k: 1}}\<close>, where the key \<open>k\<close> is 15 times the letter U+00E9, and a
  partition of one page, \<open>generate\<close> returns an image of 4096 bytes whose entries are the
  namespace definition in slot 1 and the number in slot 2 of page 0, each of span 1. Byte
  128, the first byte of slot 3, lies in no page header, bitmap slot or slot of an entry,
  and it holds \<open>0xC3\<close>: \<open>writeEntry\<close> cuts the key to 15 characters, not to 15 bytes, and
  stores their 30 UTF-8 bytes from byte 104 on, beyond the 16 bytes of the key field.
\<close>

theorem key_bytes_leave_the_slot:
  "\<exists>b. generate [(''config'', [(replicate 15 (CHR 0xE9), JNumber 1)])] PAGE_SIZE = Inr b \<and>
       length b = PAGE_SIZE \<and>
       map (\<lambda>(p, i, e). (p, i, e_span e))
         (placements [(''config'', [(replicate 15 (CHR 0xE9), JNumber 1)])]) = [(0, 1, 1), (0, 2, 1)] \<and>
       128 \<notin> covered [(''config'', [(replicate 15 (CHR 0xE9), JNumber 1)])] \<and>
       b ! 128 = 0xC3"
proof -
  let ?key = "replicate 15 (CHR 0xE9)"
  let ?dat = "[(''config'', [(?key, JNumber 1)])]"
  let ?m = "build_namespaceMap ?dat 0 Map.empty"
  let ?e = "\<lparr>e_namespace = 1, e_type = TYPE_U8, e_span = 1, e_key = ?key, e_data = [1]\<rparr>"
  have enc: "TextEncoder_encode ?key = concat (replicate 15 [0xC3, 0xA9])"
    by (simp add: TextEncoder_encode_def utf8_char_def)
  have kf: "key_field ?key = concat (replicate 15 [0xC3, 0xA9])"
    by (simp add: key_field_def pad_zero_def enc length_concat_replicate)
  have "run_generate ?dat PAGE_SIZE = Inr (0, 3)"
    by (simp add: run_simps enc length_concat_replicate)
  then obtain b where b: "generate ?dat PAGE_SIZE = Inr b"
    using generate_Inr_iff[of ?dat PAGE_SIZE] by auto
  have pl: "map (\<lambda>(p, i, e). (p, i, e_span e)) (placements ?dat) = [(0, 1, 1), (0, 2, 1)]"
    by (simp add: placements_def namespace_entry_def ns_lookup_def createEntry_def entry_payload_def
        Let_def)
  have cv: "128 \<notin> covered ?dat"
    by (simp add: covered_def span_bytes_def placements_def last_cursor_def header_bytes_def
        bitmap_bytes_def namespace_entry_def ns_lookup_def createEntry_def entry_payload_def
        entry_offset_def Let_def)
  have lc: "last_cursor ?dat = (0, 3)"
    by (simp add: last_cursor_def createEntry_def entry_payload_def Let_def)
  from b obtain b1 where
    gn: "gen_namespaces (PAGE_SIZE div PAGE_SIZE) ?m ?dat
           (write_bitmap (replicate PAGE_SIZE 0xFF) 0, 0, 1) = Inr (b1, last_cursor ?dat)"
    and l1: "length b1 = PAGE_SIZE" and bb: "b = header_written b1 (fst (last_cursor ?dat))"
    by (rule generate_unfold)
  from gn obtain st1 where
    ge: "gen_entries (PAGE_SIZE div PAGE_SIZE) (ns_lookup ?m ''config'') [(?key, JNumber 1)]
           (entry_written (write_bitmap (replicate PAGE_SIZE 0xFF) 0) (entry_offset 0 1)
              (namespace_entry ''config'' (ns_lookup ?m ''config'')), 0, 1 + 1) = Inr st1"
    and rest: "gen_namespaces (PAGE_SIZE div PAGE_SIZE) ?m [] st1 = Inr (b1, last_cursor ?dat)"
    by (rule gen_namespaces_ConsE) simp
  let ?bn = "entry_written (write_bitmap (replicate PAGE_SIZE 0xFF) 0) (entry_offset 0 1)
              (namespace_entry ''config'' (ns_lookup ?m ''config''))"
  have st1: "st1 = (b1, last_cursor ?dat)" using rest by simp
  from ge obtain e where ce: "createEntry (ns_lookup ?m ''config'') ?key (JNumber 1) = Inr e"
    and wf: "wf_entry e" and fits: "entry_offset 0 (1 + 1) + entry_need e \<le> length ?bn"
    and r2: "gen_entries (PAGE_SIZE div PAGE_SIZE) (ns_lookup ?m ''config'') []
               (step_buffer ?bn (0, 1 + 1) e, advance (0, 1 + 1) (e_span e)) = Inr st1"
    by (rule gen_entries_ConsE)
  have e: "e = ?e"
    using ce by (simp add: createEntry_def entry_payload_def ns_lookup_def)
  have b1: "b1 = entry_written ?bn 96 e"
    using r2 unfolding st1 by (simp add: step_buffer_def Let_def e entry_offset_def)
  have "b ! 128 = b1 ! 128"
    unfolding bb lc using l1 by (simp add: nth_header_written_outside header_bytes_def)
  also have "\<dots> = key_field (e_key e) ! (128 - (96 + 8))"
    unfolding b1 using fits
    by (intro nth_entry_written_key[OF wf]) (simp_all add: e entry_offset_def kf length_concat_replicate)
  also have "\<dots> = [0xC3, 0xA9] ! (24 mod 2)"
    using nth_concat_replicate[of 24 15 "[0xC3, 0xA9 :: byte]"]
    by (simp add: e kf numeral_2_eq_2)
  also have "\<dots> = 0xC3"
    by simp
  finally have sp: "b ! 128 = 0xC3" .
  have len: "length b = PAGE_SIZE" using generate_length[OF b] .
  show ?thesis
    by (rule exI[of _ b]) (simp only: b pl cv sp len simp_thms)
qed

text \<open>
  C4 (as amended). No key is rejected for its length: \<open>generate\<close> returns for an input
  what it returns for the input with every key cut to its first 15 characters. In the
  image the 16-byte key field of every entry holds the first 16 of the bytes that
  \<open>writeEntry\<close> stores for the key, which are the UTF-8 bytes of the first 15 characters of
  the key, followed by zeros when they are fewer than 16. When these characters are ASCII
  the field holds them, one byte each, followed by zeros: an ASCII key of 16 characters is
  cut to 15, and an ASCII key of 15 characters is stored whole.
\<close>

theorem key_is_cut_not_rejected:
  "generate (rekey (take 15) dat) partitionSize = generate dat partitionSize \<and>
   (generate dat partitionSize = Inr b \<longrightarrow> 32 dvd partitionSize \<longrightarrow> (p, i, e) \<in> set (placements dat) \<longrightarrow>
      slice b (entry_offset p i + 8) (entry_offset p i + 24)
        = take 16 (TextEncoder_encode (take 15 (e_key e))
                   @ replicate (16 - length (TextEncoder_encode (take 15 (e_key e)))) 0) \<and>
      ((\<forall>c \<in> set (take 15 (e_key e)). (of_char c :: nat) < 128) \<longrightarrow>
         slice b (entry_offset p i + 8) (entry_offset p i + 24)
           = map of_char (take 15 (e_key e)) @ replicate (16 - length (take 15 (e_key e))) 0))"
proof -
  have k: "slice b (entry_offset p i + 8) (entry_offset p i + 24) = take 16 (key_field (e_key e))"
    if "generate dat partitionSize = Inr b" "32 dvd partitionSize" "(p, i, e) \<in> set (placements dat)"
    using slot_holdsD(6)[OF generate_slots[OF that]] .
  have a: "take 16 (key_field (e_key e))
           = map of_char (take 15 (e_key e)) @ replicate (16 - length (take 15 (e_key e))) 0"
    if "\<forall>c \<in> set (take 15 (e_key e)). (of_char c :: nat) < 128"
    by (simp add: key_field_def pad_zero_def encode_ascii[OF that])
  have "generate (rekey (take 15) dat) partitionSize = generate dat partitionSize"
    by (rule generate_rekey) simp
  then show ?thesis
    using k a by (simp add: key_field_def pad_zero_def)
qed

theorem key_is_cut_not_rejected_witness:
  "\<exists>b. generate [(''config'', [(''abcdefghijklmnop'', JNumber 1)])] 4096 = Inr b \<and>
       slice b 104 120 = map of_char ''abcdefghijklmno'' @ [0] \<and>
       generate (rekey (take 15) [(''config'', [(''abcdefghijklmnop'', JNumber 1)])]) 4096 = Inr b"
proof -
  let ?dat = "[(''config'', [(''abcdefghijklmnop'', JNumber 1)])]"
  let ?e = "\<lparr>e_namespace = 1, e_type = 1, e_span = 1, e_key = ''abcdefghijklmnop'', e_data = [1]\<rparr>"
  have run: "run_generate ?dat 4096 = Inr (0, 3)"
    by (simp add: run_simps)
  then obtain b where b: "generate ?dat 4096 = Inr b"
    using generate_Inr_iff[of ?dat 4096] by auto
  have pl: "(0, 2, ?e) \<in> set (placements ?dat)"
    by (simp add: layout_simps)
  show ?thesis
    using key_is_cut_not_rejected[of ?dat 4096 b 0 2 ?e] b pl
    by (simp add: entry_offset_def encode_Nil encode_Cons utf8_char_def)
qed

theorem long_key_counterexample:
  "\<not> isl (generate [(''config'', [(''abcdefghijklmnop'', JNumber 1)])] 4096)"
proof -
  have "run_generate [(''config'', [(''abcdefghijklmnop'', JNumber 1)])] 4096 = Inr (0, 3)"
    by (simp add: run_simps)
  then show ?thesis
    using generate_Inr_iff[of "[(''config'', [(''abcdefghijklmnop'', JNumber 1)])]" 4096] by auto
qed

text \<open>
  C3. In every image that \<open>generate\<close> returns for a partition size that is a multiple
  of the slot size, each entry (namespace definition or data entry) has in bytes 4-7 of
  its slot, little-endian, the CRC32 of the 28 bytes made of bytes 0-3 and bytes 8-31 of
  that slot; the checksum is the reflected CRC-32 with polynomial \<open>0xEDB88320\<close>, initial
  value \<open>0xFFFFFFFF\<close> and final XOR \<open>0xFFFFFFFF\<close>. The slots after the first of a span
  carry payload bytes and no checksum.
\<close>

theorem entry_crc_stored:
  assumes "generate dat partitionSize = Inr b" and "32 dvd partitionSize"
    and "(p, i, e) \<in> set (placements dat)"
  shows "slice b (entry_offset p i + 4) (entry_offset p i + 8)
         = uint32_le (crc32_ieee (slice b (entry_offset p i) (entry_offset p i + 4)
                                  @ slice b (entry_offset p i + 8) (entry_offset p i + 32)))"
  using slot_holdsD(9)[OF generate_slots[OF assms]] by (simp add: calculateCRC32_ieee)

theorem entry_crc_stored_witness:
  "\<exists>b. generate [(''config'', [(''ssid'', JString ''HomeWiFi'')])] 4096 = Inr b \<and>
       slice b 100 104 = uint32_le (crc32_ieee (slice b 96 100 @ slice b 104 128))"
proof -
  let ?dat = "[(''config'', [(''ssid'', JString ''HomeWiFi'')])]"
  let ?e = "\<lparr>e_namespace = 1, e_type = TYPE_STR, e_span = 2, e_key = ''ssid'',
             e_data = [72, 111, 109, 101, 87, 105, 70, 105, 0]\<rparr>"
  have "run_generate ?dat 4096 = Inr (0, 4)"
    by (simp add: run_simps)
  then obtain b where b: "generate ?dat 4096 = Inr b"
    using generate_Inr_iff[of ?dat 4096] by auto
  have pl: "(0, 2, ?e) \<in> set (placements ?dat)"
    by (simp add: layout_simps)
  show ?thesis
    using entry_crc_stored[OF b _ pl] b by (simp add: entry_offset_def)
qed

text \<open>
  C9 (as amended). \<open>createEntry\<close> refuses a byte-slice value with "Unsupported value
  type", as it does every value that is neither a string nor a number, and a number that
  is not integral with "Float values not supported yet"; it never makes an entry of type
  BLOB (\<open>0x41\<close>), and \<open>generate\<close> fails on every input that holds a byte-slice value.
\<close>

theorem byte_values_refused:
  "createEntry ns key (JBytes bs) = Inl UnsupportedValueType \<and>
   createEntry ns key JFloat = Inl FloatNotSupported \<and>
   (createEntry ns key v = Inr e \<longrightarrow> e_type e \<noteq> TYPE_BLOB) \<and>
   ((name, kvs) \<in> set dat \<longrightarrow> (k, JBytes bs) \<in> set kvs \<longrightarrow> isl (generate dat partitionSize))"
proof -
  have "isl (generate dat partitionSize)" if "(name, kvs) \<in> set dat" "(k, JBytes bs) \<in> set kvs"
  proof (cases "generate dat partitionSize")
    case (Inl err)
    then show ?thesis by simp
  next
    case (Inr b)
    then have "supported (JBytes bs)"
      using generate_supported[OF Inr] that by (auto simp: supported_data_def)
    then show ?thesis by (simp add: supported_def)
  qed
  moreover have "createEntry ns key v = Inr e \<longrightarrow> e_type e \<noteq> TYPE_BLOB"
    by (auto simp: createEntry_def entry_payload_def Let_def split: jsvalue.splits if_splits)
  ultimately show ?thesis
    by (simp add: createEntry_def entry_payload_def)
qed

theorem byte_values_refused_witness:
  "createEntry 1 ''blob'' (JBytes [1, 2, 3]) = Inl UnsupportedValueType \<and>
   createEntry 1 ''blob'' JFloat = Inl FloatNotSupported \<and>
   e_type \<lparr>e_namespace = 1, e_type = TYPE_U8, e_span = 1, e_key = ''blob'', e_data = [5]\<rparr> \<noteq> TYPE_BLOB \<and>
   isl (generate [(''config'', [(''blob'', JBytes [1, 2, 3])])] 4096)"
proof -
  have "createEntry 1 ''blob'' (JNumber 5)
        = Inr \<lparr>e_namespace = 1, e_type = TYPE_U8, e_span = 1, e_key = ''blob'', e_data = [5]\<rparr>"
    by (simp add: createEntry_def entry_payload_def)
  then show ?thesis
    using byte_values_refused[of 1 "''blob''" "[1, 2, 3]" "JNumber 5"
        "\<lparr>e_namespace = 1, e_type = TYPE_U8, e_span = 1, e_key = ''blob'', e_data = [5]\<rparr>"
        "''config''" "[(''blob'', JBytes [1, 2, 3])]" "[(''config'', [(''blob'', JBytes [1, 2, 3])])]"
        "''blob''" 4096]
    by simp
qed

theorem byte_value_counterexample:
  "generate [(''config'', [(''blob'', JBytes [1, 2, 3])])] 4096 = Inl UnsupportedValueType"
proof -
  have "run_generate [(''config'', [(''blob'', JBytes [1, 2, 3])])] 4096 = Inl UnsupportedValueType"
    by (simp add: run_simps)
  then show ?thesis by (simp add: generate_Inl_iff)
qed

text \<open>
  C8 (as amended). \<open>generate\<close> has no bound on the size of a value and no ValueTooLarge
  error. \<open>createEntry\<close> turns a string of any length into a STR entry whose payload is the
  UTF-8 bytes of the string and a zero byte, and whose span is one slot more than the
  slots that the payload fills; \<open>writeEntry\<close> stores the payload length modulo 65536 in
  the 16-bit length field and the span modulo 256 in the span byte. A byte slice is refused
  as an unsupported value whatever its length.
\<close>

theorem string_length_unbounded:
  "(\<exists>e. createEntry ns key (JString s) = Inr e \<and> e_type e = TYPE_STR \<and>
        e_data e = TextEncoder_encode s @ [0] \<and>
        e_span e = 1 + ceil32 (length (TextEncoder_encode s) + 1)) \<and>
   createEntry ns key (JBytes bs) = Inl UnsupportedValueType \<and>
   (generate dat partitionSize = Inr b \<longrightarrow> 32 dvd partitionSize \<longrightarrow>
    (p, i, e) \<in> set (placements dat) \<longrightarrow> e_type e = TYPE_STR \<longrightarrow>
      le_value (slice b (entry_offset p i + 24) (entry_offset p i + 26)) = length (e_data e) mod 65536 \<and>
      unat (b ! (entry_offset p i + 2)) = e_span e mod 256)"
proof -
  have "le_value (slice b (entry_offset p i + 24) (entry_offset p i + 26)) = length (e_data e) mod 65536 \<and>
      unat (b ! (entry_offset p i + 2)) = e_span e mod 256"
    if "generate dat partitionSize = Inr b" "32 dvd partitionSize"
      "(p, i, e) \<in> set (placements dat)" "e_type e = TYPE_STR"
    using slot_holdsD(4,7)[OF generate_slots[OF that(1-3)]] that(4)
    by (simp add: le_value_length16 unat_of_nat)
  then show ?thesis
    by (simp add: createEntry_def entry_payload_def)
qed

theorem string_length_unbounded_witness:
  "\<exists>b. generate [(''config'', [(''k'', JString (replicate 65535 CHR ''x''))])] 69632 = Inr b \<and>
       le_value (slice b 120 122) = 0 \<and> unat (b ! 98) = 1"
proof -
  let ?dat = "[(''config'', [(''k'', JString (replicate 65535 CHR ''x''))])]"
  let ?e = "\<lparr>e_namespace = 1, e_type = TYPE_STR, e_span = 2049, e_key = ''k'',
             e_data = replicate 65535 120 @ [0]\<rparr>"
  have "run_generate ?dat 69632 = Inr (1, 1)"
    by (simp add: run_simps)
  then obtain b where b: "generate ?dat 69632 = Inr b"
    using generate_Inr_iff[of ?dat 69632] by auto
  have pl: "(0, 2, ?e) \<in> set (placements ?dat)"
    by (simp add: layout_simps)
  show ?thesis
    using string_length_unbounded[of 1 "''k''" "replicate 65535 CHR ''x''" "[]" ?dat 69632 b 0 2 ?e] b pl
    by (simp add: entry_offset_def)
qed

theorem large_string_counterexample:
  "\<not> isl (generate [(''config'', [(''k'', JString (replicate 65535 CHR ''x''))])] 69632)"
proof -
  have "run_generate [(''config'', [(''k'', JString (replicate 65535 CHR ''x''))])] 69632 = Inr (1, 1)"
    by (simp add: run_simps)
  then show ?thesis
    using generate_Inr_iff[of "[(''config'', [(''k'', JString (replicate 65535 CHR ''x''))])]" 69632]
    by auto
qed

text \<open>
  C7. The input \<open>{config: {k: "x" * 3935}}\<close> takes 125 slots: one for the namespace
  definition and 124 for the string (a header slot and 123 slots for the 3936 payload bytes).
  It fills the only page of a partition of 4096 bytes exactly, and \<open>generate\<close> raises "NVS
  partition size too small for data". A string of 7967 characters takes 251 slots in all,
  more than the 250 of a partition of two pages, and \<open>generate\<close> returns an image.
\<close>

theorem exact_fill_is_rejected:
  "map (\<lambda>(p, i, e). e_span e) (placements [(''config'', [(''k'', JString (replicate 3935 CHR ''x''))])]) = [1, 124] \<and>
   generate [(''config'', [(''k'', JString (replicate 3935 CHR ''x''))])] 4096 = Inl PartitionTooSmall \<and>
   map (\<lambda>(p, i, e). e_span e) (placements [(''config'', [(''k'', JString (replicate 7967 CHR ''x''))])]) = [1, 250] \<and>
   \<not> isl (generate [(''config'', [(''k'', JString (replicate 7967 CHR ''x''))])] 8192)"
proof -
  have "run_generate [(''config'', [(''k'', JString (replicate 3935 CHR ''x''))])] 4096 = Inl PartitionTooSmall"
    by (simp add: run_simps)
  then have a: "generate [(''config'', [(''k'', JString (replicate 3935 CHR ''x''))])] 4096 = Inl PartitionTooSmall"
    by (simp add: generate_Inl_iff)
  have "run_generate [(''config'', [(''k'', JString (replicate 7967 CHR ''x''))])] 8192 = Inr (1, 1)"
    by (simp add: run_simps)
  then have b: "\<not> isl (generate [(''config'', [(''k'', JString (replicate 7967 CHR ''x''))])] 8192)"
    using generate_Inr_iff[of "[(''config'', [(''k'', JString (replicate 7967 CHR ''x''))])]" 8192]
    by auto
  show ?thesis
    using a b by (simp add: layout_simps)
qed

text \<open>
  C2. For \<open>{config: {k: "x" * 4000}}\<close> and a partition of 6 pages \<open>generate\<close> returns an
  image in which the string entry starts at slot 2 of page 0 with span 127: it is not moved
  to the next page, and its span ends at byte 4160, beyond the 4096 bytes of page 0.
\<close>

theorem span_crosses_page:
  "\<exists>b. generate [(''config'', [(''k'', JString (replicate 4000 CHR ''x''))])] 24576 = Inr b \<and>
       b ! entry_offset 0 2 = 1 \<and> b ! (entry_offset 0 2 + 1) = TYPE_STR \<and>
       b ! (entry_offset 0 2 + 2) = 127 \<and>
       entry_offset 0 2 + 127 * ENTRY_SIZE > PAGE_SIZE"
proof -
  let ?dat = "[(''config'', [(''k'', JString (replicate 4000 CHR ''x''))])]"
  let ?e = "\<lparr>e_namespace = 1, e_type = TYPE_STR, e_span = 127, e_key = ''k'',
             e_data = replicate 4000 120 @ [0]\<rparr>"
  have "run_generate ?dat 24576 = Inr (1, 1)"
    by (simp add: run_simps)
  then obtain b where b: "generate ?dat 24576 = Inr b"
    using generate_Inr_iff[of ?dat 24576] by auto
  have pl: "(0, 2, ?e) \<in> set (placements ?dat)"
    by (simp add: layout_simps)
  show ?thesis
    using slot_holdsD(2-4)[OF generate_slots[OF b _ pl]] b
    by (simp add: entry_offset_def)
qed

text \<open>
  C10. \<open>createEntry\<close> raises no error on a negative integer: it makes an entry of type U32
  (\<open>0x04\<close>) and span 1 whose payload is the value modulo \<open>2^32\<close>, little-endian. No entry
  that \<open>createEntry\<close> makes has the type I8, I16 or I32, and no entry in an image that
  \<open>generate\<close> returns has: for every negative integer of the input the image has an entry
  with the bytes of its key in the key field, type byte \<open>0x04\<close> and the four bytes at
  offset 24 holding the value modulo \<open>2^32\<close>.
\<close>

theorem negative_integers_unsigned:
  "(v < 0 \<longrightarrow> createEntry ns key (JNumber v)
       = Inr \<lparr>e_namespace = ns, e_type = TYPE_U32, e_span = 1, e_key = key,
              e_data = uint32_le (word_of_int v)\<rparr>) \<and>
   (createEntry ns key w = Inr e \<longrightarrow> e_type e \<notin> {TYPE_I8, TYPE_I16, TYPE_I32}) \<and>
   (generate dat partitionSize = Inr b \<longrightarrow> 32 dvd partitionSize \<longrightarrow>
      (\<forall>(p, i, e) \<in> set (placements dat). b ! (entry_offset p i + 1) \<notin> {TYPE_I8, TYPE_I16, TYPE_I32}) \<and>
      (\<forall>(name, kvs) \<in> set dat. \<forall>(key, x) \<in> set kvs. \<forall>v. x = JNumber v \<longrightarrow> v < 0 \<longrightarrow>
         (\<exists>p i. b ! (entry_offset p i + 1) = TYPE_U32 \<and> b ! (entry_offset p i + 2) = 1 \<and>
                slice b (entry_offset p i + 8) (entry_offset p i + 24) = take 16 (key_field key) \<and>
                le_value (slice b (entry_offset p i + 24) (entry_offset p i + 28)) = nat (v mod 2 ^ 32))))"
proof -
  have types: "b ! (entry_offset p i + 1) \<notin> {TYPE_I8, TYPE_I16, TYPE_I32}"
    if "generate dat partitionSize = Inr b" "32 dvd partitionSize" "(p, i, e) \<in> set (placements dat)"
    for p i e
  proof -
    have "e_type e \<in> {TYPE_U8, TYPE_U16, TYPE_U32, TYPE_STR}"
      using that(3) unfolding placements_def by (rule place_namespaces_type)
    then show ?thesis
      using slot_holdsD(3)[OF generate_slots[OF that]] by auto
  qed
  have neg: "\<exists>p i. b ! (entry_offset p i + 1) = TYPE_U32 \<and> b ! (entry_offset p i + 2) = 1 \<and>
                slice b (entry_offset p i + 8) (entry_offset p i + 24) = take 16 (key_field key) \<and>
                le_value (slice b (entry_offset p i + 24) (entry_offset p i + 28)) = nat (v mod 2 ^ 32)"
    if g: "generate dat partitionSize = Inr b" "32 dvd partitionSize"
      and m: "(name, kvs) \<in> set dat" "(key, JNumber v) \<in> set kvs" and v: "v < 0"
    for name kvs key v
  proof -
    obtain q j e n where pl: "(q, j, e) \<in> set (placements dat)" and ce: "createEntry n key (JNumber v) = Inr e"
      using place_namespaces_value[OF generate_supported[OF g(1)] m] unfolding placements_def by blast
    have e: "e = \<lparr>e_namespace = n, e_type = TYPE_U32, e_span = 1, e_key = key,
                  e_data = uint32_le (word_of_int v)\<rparr>"
      using ce createEntry_negative[OF v, of n key] by simp
    note s = slot_holdsD[OF generate_slots[OF g pl]]
    have "le_value (slice b (entry_offset q j + 24) (entry_offset q j + 28)) = nat (v mod 2 ^ 32)"
      using s(8) by (simp add: e le_value_uint32 unat_word_of_int32 add.assoc)
    then show ?thesis
      using s(3,4,6) by (auto simp: e)
  qed
  have "createEntry ns key w = Inr e \<longrightarrow> e_type e \<notin> {TYPE_I8, TYPE_I16, TYPE_I32}"
    using createEntry_type[of ns key w e] by auto
  then show ?thesis
    using types neg createEntry_negative[of v ns key] by (auto simp del: insert_iff)
qed

theorem negative_integers_unsigned_witness:
  "createEntry 1 ''offset'' (JNumber (- 2))
     = Inr \<lparr>e_namespace = 1, e_type = TYPE_U32, e_span = 1, e_key = ''offset'',
            e_data = [0xFE, 0xFF, 0xFF, 0xFF]\<rparr> \<and>
   (\<exists>b. generate [(''config'', [(''offset'', JNumber (- 2))])] 4096 = Inr b \<and>
        b ! 97 \<notin> {TYPE_I8, TYPE_I16, TYPE_I32} \<and>
        (\<exists>p i. b ! (entry_offset p i + 1) = TYPE_U32 \<and>
               slice b (entry_offset p i + 8) (entry_offset p i + 24) = take 16 (key_field ''offset'') \<and>
               le_value (slice b (entry_offset p i + 24) (entry_offset p i + 28)) = 4294967294))"
proof -
  let ?dat = "[(''config'', [(''offset'', JNumber (- 2))])]"
  let ?e = "\<lparr>e_namespace = 1, e_type = TYPE_U32, e_span = 1, e_key = ''offset'',
             e_data = [0xFE, 0xFF, 0xFF, 0xFF]\<rparr>"
  have ce: "createEntry 1 ''offset'' (JNumber (- 2)) = Inr ?e"
    by (simp add: createEntry_def entry_payload_def uint32_le_def)
  have "run_generate ?dat 4096 = Inr (0, 3)"
    by (simp add: run_simps)
  then obtain b where b: "generate ?dat 4096 = Inr b"
    using generate_Inr_iff[of ?dat 4096] by auto
  have pl: "(0, 2, ?e) \<in> set (placements ?dat)"
    by (simp add: layout_simps uint32_le_def)
  note t = negative_integers_unsigned[of "- 2" 1 "''offset''" "JNumber (- 2)" ?e ?dat 4096 b]
  have "b ! 97 \<notin> {TYPE_I8, TYPE_I16, TYPE_I32}"
    using t b pl by (auto simp: entry_offset_def simp del: insert_iff)
  moreover have "\<exists>p i. b ! (entry_offset p i + 1) = TYPE_U32 \<and>
               slice b (entry_offset p i + 8) (entry_offset p i + 24) = take 16 (key_field ''offset'') \<and>
               le_value (slice b (entry_offset p i + 24) (entry_offset p i + 28)) = 4294967294"
    using t b by fastforce
  ultimately show ?thesis using ce b by blast
qed

text \<open>
  C6 (as amended). In an image that \<open>generate\<close> returns, the namespaces with a non-empty value
  map have their definition entries (namespace byte 0, type \<open>0x01\<close>, span 1, the bytes of
  the name in the key field) at strictly increasing offsets in the order of the input.
  Byte 24 of the \<open>k\<close>-th of them (from 1) holds \<open>k\<close> modulo 256, but 0 for the namespace
  named \<open>__proto__\<close>, which \<open>namespaceMap\<close> does not keep: the indices are 1, 2, 3, ... as
  long as there are at most 255 such namespaces and none is named \<open>__proto__\<close>.
\<close>

theorem namespace_definitions_in_order:
  assumes "generate dat partitionSize = Inr b" and "32 dvd partitionSize"
    and "distinct (map fst dat)"
  shows "length (definition_slots dat) = length (nonempty_namespaces dat) \<and>
         sorted_wrt (<) (map cur_off (definition_slots dat)) \<and>
         (\<forall>k < length (nonempty_namespaces dat).
            let off = cur_off (definition_slots dat ! k) in
              b ! off = 0 \<and> b ! (off + 1) = 0x01 \<and> b ! (off + 2) = 1 \<and>
              slice b (off + 8) (off + 24) = take 16 (key_field (fst (nonempty_namespaces dat ! k))) \<and>
              b ! (off + 24)
                = (if fst (nonempty_namespaces dat ! k) = ''__proto__'' then 0 else of_nat (k + 1)) \<and>
              (length (nonempty_namespaces dat) \<le> 255 \<longrightarrow>
               fst (nonempty_namespaces dat ! k) \<noteq> ''__proto__'' \<longrightarrow> unat (b ! (off + 24)) = k + 1))"
proof -
  have a: "length (definition_slots dat) = length (nonempty_namespaces dat)"
    by (simp add: definition_slots_def def_places_length)
  have b: "sorted_wrt (<) (map cur_off (definition_slots dat))"
    unfolding definition_slots_def
    using def_places_sorted[of "(0, 1)" dat] generate_supported[OF assms(1)]
    by (simp add: cur_ok_def)
  have c: "b ! off = 0 \<and> b ! (off + 1) = 0x01 \<and> b ! (off + 2) = 1 \<and>
           slice b (off + 8) (off + 24) = take 16 (key_field (fst (nonempty_namespaces dat ! k))) \<and>
           b ! (off + 24)
             = (if fst (nonempty_namespaces dat ! k) = ''__proto__'' then 0 else of_nat (k + 1)) \<and>
           (length (nonempty_namespaces dat) \<le> 255 \<longrightarrow>
            fst (nonempty_namespaces dat ! k) \<noteq> ''__proto__'' \<longrightarrow> unat (b ! (off + 24)) = k + 1)"
    if k: "k < length (nonempty_namespaces dat)" and off: "off = cur_off (definition_slots dat ! k)"
    for k off
  proof -
    note s = slot_holdsD[OF namespace_definition_slot[OF assms k], folded off]
    let ?name = "fst (nonempty_namespaces dat ! k)"
    have "b ! (off + 24) = of_nat (if ?name = ''__proto__'' then 0 else k + 1)"
      using s(8) s(1) by (intro slice_single) (simp_all add: namespace_entry_def)
    then have d: "b ! (off + 24) = (if ?name = ''__proto__'' then 0 else of_nat (k + 1))"
      by simp
    have "unat (of_nat (k + 1) :: byte) = k + 1" if "length (nonempty_namespaces dat) \<le> 255"
      unfolding unat_of_nat using that k by simp
    then have "length (nonempty_namespaces dat) \<le> 255 \<longrightarrow> ?name \<noteq> ''__proto__'' \<longrightarrow>
               unat (b ! (off + 24)) = k + 1"
      unfolding d by simp
    then show ?thesis
      using s(2-4,6) d by (simp add: namespace_entry_def)
  qed
  show ?thesis
    unfolding Let_def using a b c[OF _ refl] by blast
qed

theorem namespace_definitions_in_order_witness:
  "\<exists>b. generate [(''wifi'', [(''ssid'', JString ''net'')]), (''empty'', []),
                   (''mqtt'', [(''port'', JNumber 1883)])] 4096 = Inr b \<and>
       definition_slots [(''wifi'', [(''ssid'', JString ''net'')]), (''empty'', []),
                         (''mqtt'', [(''port'', JNumber 1883)])] = [(0, 1), (0, 4)] \<and>
       b ! 64 = 0 \<and> b ! 65 = 1 \<and> slice b 72 88 = take 16 (key_field ''wifi'') \<and> b ! 88 = 1 \<and>
       b ! 160 = 0 \<and> b ! 161 = 1 \<and> slice b 168 184 = take 16 (key_field ''mqtt'') \<and> b ! 184 = 2"
proof -
  let ?dat = "[(''wifi'', [(''ssid'', JString ''net'')]), (''empty'', []),
               (''mqtt'', [(''port'', JNumber 1883)])]"
  have "run_generate ?dat 4096 = Inr (0, 6)"
    by (simp add: run_simps)
  then obtain b where b: "generate ?dat 4096 = Inr b"
    using generate_Inr_iff[of ?dat 4096] by auto
  have ds: "definition_slots ?dat = [(0, 1), (0, 4)]"
    by (simp add: definition_slots_def layout_simps)
  have nn: "nonempty_namespaces ?dat = [(''wifi'', [(''ssid'', JString ''net'')]),
                                        (''mqtt'', [(''port'', JNumber 1883)])]"
    by (simp add: nonempty_namespaces_def)
  note t = namespace_definitions_in_order[OF b, unfolded ds nn, THEN conjunct2, THEN conjunct2,
      rule_format]
  have "b ! 64 = 0 \<and> b ! 65 = 1 \<and> slice b 72 88 = take 16 (key_field ''wifi'') \<and> b ! 88 = 1"
    using t[of 0] by (simp add: cur_off_def entry_offset_def Let_def)
  moreover have "b ! 160 = 0 \<and> b ! 161 = 1 \<and> slice b 168 184 = take 16 (key_field ''mqtt'') \<and> b ! 184 = 2"
    using t[of 1] by (simp add: cur_off_def entry_offset_def Let_def)
  ultimately show ?thesis using b ds by blast
qed

theorem namespace_index_counterexample:
  "\<not> isl (generate many_namespaces 24576) \<and>
   distinct (map fst many_namespaces) \<and>
   length (nonempty_namespaces many_namespaces) = 256 \<and>
   projr (generate many_namespaces 24576) ! (cur_off (definition_slots many_namespaces ! 255) + 24) = 0"
proof -
  have run: "run_generate many_namespaces 24576 = Inr (4, 9)"
    unfolding run_generate_map
    by (simp add: many_namespaces_def run_simps)
  then obtain b where b: "generate many_namespaces 24576 = Inr b"
    using generate_Inr_iff[of many_namespaces 24576] by auto
  have "inj (\<lambda>(x :: char, y). [x, y])" by (auto simp: inj_on_def)
  then have d: "distinct (map fst many_namespaces)"
    by (simp add: many_namespaces_def comp_def case_prod_beta distinct_map distinct_product
        inj_on_def)
  have n: "nonempty_namespaces many_namespaces = many_namespaces"
    by (simp add: nonempty_namespaces_def many_namespaces_def filter_map comp_def case_prod_beta)
  have l: "length many_namespaces = 256"
    by (simp add: many_namespaces_def)
  note s = slot_holdsD[OF namespace_definition_slot[OF b _ d, of 255]]
  have "b ! (cur_off (definition_slots many_namespaces ! 255) + 24) = of_nat (255 + 1)"
    using s(8) s(1) by (intro slice_single) (simp_all add: namespace_entry_def n l)
  then show ?thesis
    using b d n l by simp
qed

text \<open>
  C1 (round trip). What \<open>parse\<close> reads back from the image that \<open>generate\<close> makes of a
  well-formed input whose entries stay within their pages, for a partition of whole pages:
  the input without its empty namespaces and with every integer reduced modulo \<open>2 ^ 32\<close>;
  so the input itself when every namespace has values and every integer is an unsigned
  32-bit number.
\<close>

theorem round_trip_of_exact_input:
  assumes "well_formed dat" and "fits_pages dat" and "PAGE_SIZE dvd partitionSize"
    and "generate dat partitionSize = Inr b"
  shows "parse b = Some (Inr (decoded dat)) \<and> (exact_input dat \<longrightarrow> parse b = Some (Inr dat))"
  using parse_generate[OF assms] decoded_exact[of dat] by simp

theorem round_trip_of_exact_input_witness:
  "well_formed [(''config'', [(''ssid'', JString ''net''), (''pass'', JString ''secret''),
                              (''port'', JNumber 1883), (''led_ms'', JNumber 1000)])]
   \<and> fits_pages [(''config'', [(''ssid'', JString ''net''), (''pass'', JString ''secret''),
                               (''port'', JNumber 1883), (''led_ms'', JNumber 1000)])]
   \<and> exact_input [(''config'', [(''ssid'', JString ''net''), (''pass'', JString ''secret''),
                                (''port'', JNumber 1883), (''led_ms'', JNumber 1000)])]
   \<and> PAGE_SIZE dvd 24576
   \<and> (\<exists>b. generate [(''config'', [(''ssid'', JString ''net''), (''pass'', JString ''secret''),
                                   (''port'', JNumber 1883), (''led_ms'', JNumber 1000)])] 24576 = Inr b
          \<and> parse b = Some (Inr [(''config'', [(''ssid'', JString ''net''), (''pass'', JString ''secret''),
                                               (''port'', JNumber 1883), (''led_ms'', JNumber 1000)])]))"
proof -
  let ?d = "[(''config'', [(''ssid'', JString ''net''), (''pass'', JString ''secret''),
                           (''port'', JNumber 1883), (''led_ms'', JNumber 1000)])]"
  have wf: "well_formed ?d"
    by (simp add: well_formed_def good_name_def good_text_def good_value_def inherited_names_def
        nonempty_namespaces_def)
  have fp: "fits_pages ?d" by (simp add: fits_pages_def layout_simps)
  have ex: "exact_input ?d" by (simp add: exact_input_def)
  have dv: "PAGE_SIZE dvd (24576::nat)" by simp
  have "run_generate ?d 24576 = Inr (0, 8)" by (simp add: run_simps)
  then obtain b where gen: "generate ?d 24576 = Inr b" using generate_Inr_iff[of ?d 24576] by auto
  show ?thesis using round_trip_of_exact_input[OF wf fp dv gen] wf fp ex dv gen by blast
qed

text \<open>
  A negative integer does not come back: \<open>generate\<close> accepts \<open>{config: {offset: -2}}\<close>, and
  \<open>parse\<close> reads \<open>4294967294\<close> from the image.
\<close>

theorem round_trip_counterexample:
  "\<exists>b. generate [(''config'', [(''offset'', JNumber (- 2))])] PAGE_SIZE = Inr b
       \<and> parse b = Some (Inr [(''config'', [(''offset'', JNumber 4294967294)])])
       \<and> parse b \<noteq> Some (Inr [(''config'', [(''offset'', JNumber (- 2))])])"
proof -
  let ?d = "[(''config'', [(''offset'', JNumber (- 2))])]"
  have wf: "well_formed ?d"
    by (simp add: well_formed_def good_name_def good_text_def good_value_def inherited_names_def
        nonempty_namespaces_def)
  have fp: "fits_pages ?d" by (simp add: fits_pages_def layout_simps)
  have "run_generate ?d PAGE_SIZE = Inr (0, 3)" by (simp add: run_simps)
  then obtain b where gen: "generate ?d PAGE_SIZE = Inr b" using generate_Inr_iff[of ?d PAGE_SIZE] by auto
  have "decoded ?d = [(''config'', [(''offset'', JNumber 4294967294)])]"
    by (simp add: decoded_def decoded_entries_def decoded_value_def nonempty_namespaces_def)
  then have "parse b = Some (Inr [(''config'', [(''offset'', JNumber 4294967294)])])"
    using parse_generate[OF wf fp _ gen] by simp
  then show ?thesis using gen by auto
qed

end
